theory Spec2Isabelle
  imports Complex_Main "HOL-Library.AList"
begin

section \<open>Strings\<close>

text \<open>
  A JavaScript string is modelled as a \<^typ>\<open>string\<close>, one \<^typ>\<open>char\<close> for each code
  unit, so that lengths and positions are those of the source. A \<^typ>\<open>char\<close> stands for
  the code unit of the same number (0 to 255, the Latin-1 range), with one exception:
  the number 149 stands for the bullet U+2022, which the templates of the source print,
  and not for the control character U+0095. \<open>toLowerCase\<close> maps the upper-case letters
  of that range (A to Z, and 192 to 222 without the multiplication sign 215) to the
  letter 32 places further on and leaves every other code unit alone, the bullet too.
\<close>

definition toLowerCase_char :: "char \<Rightarrow> char" where
  "toLowerCase_char c =
     (let n = (of_char c :: nat)
      in if (65 \<le> n \<and> n \<le> 90) \<or> (192 \<le> n \<and> n \<le> 222 \<and> n \<noteq> 215)
         then char_of (n + 32) else c)"

definition toLowerCase :: "string \<Rightarrow> string" where
  "toLowerCase s = map toLowerCase_char s"

text \<open>\<open>s.startsWith(p)\<close> on strings.\<close>

fun str_startsWith :: "string \<Rightarrow> string \<Rightarrow> bool" where
  "str_startsWith s [] = True"
| "str_startsWith [] (p # ps) = False"
| "str_startsWith (c # cs) (p # ps) = (c = p \<and> str_startsWith cs ps)"

section \<open>Trie (src/utils/Trie.ts)\<close>

text \<open>
  \<open>children\<close> is a JavaScript \<open>Map\<close>: it iterates in insertion order, \<open>set\<close> on a new
  key appends, \<open>set\<close> on an old key replaces in place and \<open>delete\<close> removes the entry.
  It is an association list here, read with \<^const>\<open>map_of\<close> and written with
  \<^const>\<open>AList.update\<close> and \<^const>\<open>AList.delete\<close>. The optional field \<open>value\<close> is an option.
\<close>

datatype TrieNode = TrieNode
  (children: "(char \<times> TrieNode) list")
  (isEndOfWord: bool)
  (node_value: "string option")

text \<open>\<open>new TrieNode()\<close>.\<close>

definition new_TrieNode :: TrieNode where
  "new_TrieNode = TrieNode [] False None"

record Trie =
  root :: TrieNode
  trie_size :: int

text \<open>\<open>new Trie()\<close>.\<close>

definition new_Trie :: Trie where
  "new_Trie = \<lparr> root = new_TrieNode, trie_size = 0 \<rparr>"

text \<open>
  The loop of \<open>insert\<close> walks down from the root, creating the missing children, and
  marks the last node when it is not yet the end of a word. \<open>insert_node\<close> is that walk
  on the remaining characters \<open>cs\<close> of the normalised word; it returns the updated node
  and whether a new word was marked (the caller then increments \<open>size\<close>).
\<close>

fun insert_node :: "TrieNode \<Rightarrow> string \<Rightarrow> string \<Rightarrow> TrieNode \<times> bool" where
  "insert_node (TrieNode ch e v) [] word =
     (if \<not> e then (TrieNode ch True (Some word), True) else (TrieNode ch e v, False))"
| "insert_node (TrieNode ch e v) (c # cs) word =
     (let ch1 = (if map_of ch c = None then AList.update c new_TrieNode ch else ch);
          child = (case map_of ch1 c of Some n \<Rightarrow> n | None \<Rightarrow> new_TrieNode);
          (child', added) = insert_node child cs word
      in (TrieNode (AList.update c child' ch1) e v, added))"

text \<open>\<open>insert(word)\<close>: nothing happens on the empty word.\<close>

definition Trie_insert :: "Trie \<Rightarrow> string \<Rightarrow> Trie" where
  "Trie_insert t word =
     (if word = [] then t
      else let (r, added) = insert_node (root t) (toLowerCase word) word
           in \<lparr> root = r, trie_size = (if added then trie_size t + 1 else trie_size t) \<rparr>)"

text \<open>\<open>findNode(prefix)\<close>, started at a node: \<open>None\<close> is the source's \<open>null\<close>.\<close>

fun findNode :: "TrieNode \<Rightarrow> string \<Rightarrow> TrieNode option" where
  "findNode n [] = Some n"
| "findNode n (c # cs) =
     (case map_of (children n) c of None \<Rightarrow> None | Some child \<Rightarrow> findNode child cs)"

text \<open>\<open>search(word)\<close>, the exact and case-insensitive membership test.\<close>

definition Trie_search :: "Trie \<Rightarrow> string \<Rightarrow> bool" where
  "Trie_search t word =
     (if word = [] then False
      else case findNode (root t) (toLowerCase word) of
             None \<Rightarrow> False
           | Some node \<Rightarrow> isEndOfWord node)"

text \<open>\<open>startsWith(prefix)\<close> of the trie.\<close>

definition Trie_startsWith :: "Trie \<Rightarrow> string \<Rightarrow> bool" where
  "Trie_startsWith t pre =
     (if pre = [] then True else findNode (root t) (toLowerCase pre) \<noteq> None)"





text \<open>
  \<open>delete\<close> first clears \<open>isEndOfWord\<close> and \<open>value\<close> of the node that \<open>findNode\<close>
  returned. The node is shared with the tree, so the tree changes at that path:
  \<open>unmark_node\<close> is this assignment seen from the root.
\<close>

fun unmark_node :: "TrieNode \<Rightarrow> string \<Rightarrow> TrieNode" where
  "unmark_node (TrieNode ch e v) [] = TrieNode ch False None"
| "unmark_node (TrieNode ch e v) (c # cs) =
     (case map_of ch c of
        None \<Rightarrow> TrieNode ch e v
      | Some child \<Rightarrow> TrieNode (AList.update c (unmark_node child cs) ch) e v)"

text \<open>
  \<open>deleteHelper(node, word, index)\<close>, on the characters of \<open>word\<close> from \<open>index\<close> on. It
  returns the node as the call leaves it and the boolean the source returns (whether
  the caller should delete this node).
\<close>

fun deleteHelper :: "TrieNode \<Rightarrow> string \<Rightarrow> TrieNode \<times> bool" where
  "deleteHelper (TrieNode ch e v) [] = (TrieNode ch e v, length ch = 0)"
| "deleteHelper (TrieNode ch e v) (c # cs) =
     (case map_of ch c of
        None \<Rightarrow> (TrieNode ch e v, False)
      | Some childNode \<Rightarrow>
          (let (child', shouldDeleteChild) = deleteHelper childNode cs
           in if shouldDeleteChild
              then (let ch' = AList.delete c ch
                    in (TrieNode ch' e v, length ch' = 0 \<and> \<not> e))
              else (TrieNode (AList.update c child' ch) e v, False)))"

text \<open>\<open>delete(word)\<close>: the trie afterwards and the boolean returned.\<close>

definition Trie_delete :: "Trie \<Rightarrow> string \<Rightarrow> Trie \<times> bool" where
  "Trie_delete t word =
     (if word = [] then (t, False)
      else let normalizedWord = toLowerCase word
           in case findNode (root t) normalizedWord of
                None \<Rightarrow> (t, False)
              | Some node \<Rightarrow>
                  if \<not> isEndOfWord node then (t, False)
                  else let r1 = unmark_node (root t) normalizedWord;
                           (r2, _) = deleteHelper r1 normalizedWord
                       in (\<lparr> root = r2, trie_size = trie_size t - 1 \<rparr>, True))"

text \<open>The trie after inserting the words \<open>ws\<close>, in this order, into an empty trie.\<close>

definition inserted :: "string list \<Rightarrow> Trie" where
  "inserted ws = foldl Trie_insert new_Trie ws"

section \<open>LRU cache (src/utils/LRUCache.ts)\<close>

text \<open>An exception thrown by the source: \<open>throw new Error(message)\<close>, or a \<open>TypeError\<close>
  raised by reading a property of \<open>undefined\<close>.\<close>

datatype error = Error string | TypeError

text \<open>
  The nodes of the doubly linked list are objects that the map and the neighbouring
  nodes share, so the model has an explicit store: \<open>heap\<close> is the list of all nodes
  allocated so far, a reference is an index into it, and \<open>null\<close> is \<open>None\<close>.
  \<open>new LRUNode(key, value)\<close> appends to the store. Nodes that are unlinked stay in the
  store, unreachable. The map \<open>cache\<close> from keys to nodes is an association list from
  keys to references, as for the trie.
\<close>

record ('k, 'v) LRUNode =
  lru_key :: 'k
  lru_value :: 'v
  lru_prev :: "nat option"
  lru_next :: "nat option"

definition new_LRUNode :: "'k \<Rightarrow> 'v \<Rightarrow> ('k, 'v) LRUNode" where
  "new_LRUNode k v = \<lparr> lru_key = k, lru_value = v, lru_prev = None, lru_next = None \<rparr>"

record ('k, 'v) LRUCache =
  capacity :: int
  cache :: "('k \<times> nat) list"
  heap :: "('k, 'v) LRUNode list"
  head :: "nat option"
  tail :: "nat option"
  hits :: int
  misses :: int

text \<open>The constructor: it throws on a capacity that is not positive.\<close>

definition LRUCache_new :: "int \<Rightarrow> error + ('k, 'v) LRUCache" where
  "LRUCache_new cap =
     (if cap \<le> 0 then Inl (Error ''Capacity must be greater than 0'')
      else Inr \<lparr> capacity = cap, cache = [], heap = [], head = None, tail = None,
                 hits = 0, misses = 0 \<rparr>)"

text \<open>\<open>removeNode(node)\<close>: the two \<open>if\<close> statements, one after the other.\<close>

definition removeNode :: "('k, 'v) LRUCache \<Rightarrow> nat \<Rightarrow> ('k, 'v) LRUCache" where
  "removeNode c node =
     (let c1 = (case lru_prev (heap c ! node) of
                  Some p \<Rightarrow> c\<lparr> heap := (heap c)[p := (heap c ! p)\<lparr> lru_next := lru_next (heap c ! node) \<rparr>] \<rparr>
                | None \<Rightarrow> c\<lparr> head := lru_next (heap c ! node) \<rparr>)
      in (case lru_next (heap c1 ! node) of
            Some n \<Rightarrow> c1\<lparr> heap := (heap c1)[n := (heap c1 ! n)\<lparr> lru_prev := lru_prev (heap c1 ! node) \<rparr>] \<rparr>
          | None \<Rightarrow> c1\<lparr> tail := lru_prev (heap c1 ! node) \<rparr>))"

text \<open>\<open>addToHead(node)\<close>.\<close>

definition addToHead :: "('k, 'v) LRUCache \<Rightarrow> nat \<Rightarrow> ('k, 'v) LRUCache" where
  "addToHead c node =
     (let c1 = c\<lparr> heap := (heap c)[node := (heap c ! node)\<lparr> lru_prev := None, lru_next := head c \<rparr>] \<rparr>;
          c2 = (case head c1 of
                  Some h \<Rightarrow> c1\<lparr> heap := (heap c1)[h := (heap c1 ! h)\<lparr> lru_prev := Some node \<rparr>] \<rparr>
                | None \<Rightarrow> c1);
          c3 = c2\<lparr> head := Some node \<rparr>
      in (if tail c3 = None then c3\<lparr> tail := Some node \<rparr> else c3))"

text \<open>\<open>moveToHead(node)\<close>.\<close>

definition moveToHead :: "('k, 'v) LRUCache \<Rightarrow> nat \<Rightarrow> ('k, 'v) LRUCache" where
  "moveToHead c node =
     (if head c = Some node then c else addToHead (removeNode c node) node)"

text \<open>\<open>removeTail()\<close>.\<close>

definition removeTail :: "('k, 'v) LRUCache \<Rightarrow> ('k, 'v) LRUCache" where
  "removeTail c =
     (case tail c of
        None \<Rightarrow> c
      | Some tailNode \<Rightarrow>
          (let c1 = removeNode c tailNode
           in c1\<lparr> cache := AList.delete (lru_key (heap c1 ! tailNode)) (cache c1) \<rparr>))"

text \<open>\<open>get(key)\<close>: the cache afterwards and the value returned (\<open>None\<close> for \<open>undefined\<close>).\<close>

definition LRU_get :: "('k, 'v) LRUCache \<Rightarrow> 'k \<Rightarrow> ('k, 'v) LRUCache \<times> 'v option" where
  "LRU_get c k =
     (case map_of (cache c) k of
        None \<Rightarrow> (c\<lparr> misses := misses c + 1 \<rparr>, None)
      | Some node \<Rightarrow>
          (let c1 = moveToHead (c\<lparr> hits := hits c + 1 \<rparr>) node
           in (c1, Some (lru_value (heap c1 ! node)))))"

text \<open>\<open>put(key, value)\<close>.\<close>

definition LRU_put :: "('k, 'v) LRUCache \<Rightarrow> 'k \<Rightarrow> 'v \<Rightarrow> ('k, 'v) LRUCache" where
  "LRU_put c k v =
     (case map_of (cache c) k of
        Some existingNode \<Rightarrow>
          moveToHead
            (c\<lparr> heap := (heap c)[existingNode := (heap c ! existingNode)\<lparr> lru_value := v \<rparr>] \<rparr>)
            existingNode
      | None \<Rightarrow>
          (let newNode = length (heap c);
               c1 = c\<lparr> heap := heap c @ [new_LRUNode k v],
                        cache := AList.update k newNode (cache c) \<rparr>;
               c2 = addToHead c1 newNode
           in if int (length (cache c2)) > capacity c2 then removeTail c2 else c2))"

text \<open>\<open>has(key)\<close>.\<close>

definition LRU_has :: "('k, 'v) LRUCache \<Rightarrow> 'k \<Rightarrow> bool" where
  "LRU_has c k = (map_of (cache c) k \<noteq> None)"

text \<open>\<open>delete(key)\<close>: the cache afterwards and the boolean returned.\<close>

definition LRU_delete :: "('k, 'v) LRUCache \<Rightarrow> 'k \<Rightarrow> ('k, 'v) LRUCache \<times> bool" where
  "LRU_delete c k =
     (case map_of (cache c) k of
        None \<Rightarrow> (c, False)
      | Some node \<Rightarrow>
          (let c1 = removeNode c node
           in (c1\<lparr> cache := AList.delete k (cache c1) \<rparr>, True)))"

text \<open>\<open>clear()\<close>.\<close>

definition LRU_clear :: "('k, 'v) LRUCache \<Rightarrow> ('k, 'v) LRUCache" where
  "LRU_clear c = c\<lparr> cache := [], head := None, tail := None, hits := 0, misses := 0 \<rparr>"

text \<open>\<open>size()\<close>, the size of the map.\<close>

definition LRU_size :: "('k, 'v) LRUCache \<Rightarrow> nat" where
  "LRU_size c = length (cache c)"

text \<open>
  \<open>keys()\<close> walks the list from the head along \<open>next\<close> until \<open>null\<close>. Nothing in the loop
  bounds it, so it is a partial function: \<open>None\<close> stands for a walk that never ends.
\<close>

partial_function (option) keys_loop ::
    "('k, 'v) LRUNode list \<Rightarrow> nat option \<Rightarrow> 'k list \<Rightarrow> 'k list option" where
  "keys_loop h current ks =
     (case current of
        None \<Rightarrow> Some ks
      | Some node \<Rightarrow> keys_loop h (lru_next (h ! node)) (ks @ [lru_key (h ! node)]))"

declare keys_loop.simps [code]

definition LRU_keys :: "('k, 'v) LRUCache \<Rightarrow> 'k list option" where
  "LRU_keys c = keys_loop (heap c) (head c) []"

text \<open>The five public operations that change or query the cache, and a run of them.\<close>

datatype ('k, 'v) lru_op = Get 'k | Put 'k 'v | Has 'k | Delete 'k | Clear

fun lru_step :: "('k, 'v) LRUCache \<Rightarrow> ('k, 'v) lru_op \<Rightarrow> ('k, 'v) LRUCache" where
  "lru_step c (Get k) = fst (LRU_get c k)"
| "lru_step c (Put k v) = LRU_put c k v"
| "lru_step c (Has k) = c"
| "lru_step c (Delete k) = fst (LRU_delete c k)"
| "lru_step c Clear = LRU_clear c"

definition lru_run :: "('k, 'v) LRUCache \<Rightarrow> ('k, 'v) lru_op list \<Rightarrow> ('k, 'v) LRUCache" where
  "lru_run c ops = foldl lru_step c ops"

section \<open>Numbers\<close>

text \<open>
  A JavaScript number is an IEEE 754 double. The model holds a finite double as the
  rational number that is its exact value, so that comparing two doubles is comparing
  two rationals. \<open>double_of x\<close> is the double nearest to the rational \<open>x\<close>, the even
  significand winning a tie: it is the value of a decimal literal of the source
  (\<open>0.3\<close> is \<open>double_of (3 / 10)\<close>) and the rounding that ends every addition.

  A double has a significand of 53 bits: for \<open>x\<close> other than 0, with \<open>e\<close> the exponent for
  which \<open>\<bar>x\<bar> / 2^e\<close> lies between \<open>2^52\<close> and \<open>2^53\<close>, the double is that quotient rounded to
  an integer, times \<open>2^e\<close>. The exponent is found from the bit lengths of numerator and
  denominator. The exponent range of a double is not modelled: the numbers of the
  source are relevance scores, sums of the constants 0.25 to 1, and such a sum is 0 or
  lies between 0.25 and \<open>2^54\<close>, where adding one more constant leaves a double unchanged.
\<close>

type_synonym double = rat

text \<open>The number of binary digits of a positive integer.\<close>

function bit_length :: "int \<Rightarrow> int" where
  "bit_length n = (if n \<le> 0 then 0 else bit_length (n div 2) + 1)"
  by pat_completeness auto
termination
  by (relation "measure nat") auto

declare bit_length.simps [simp del]

definition pow2 :: "int \<Rightarrow> rat" where
  "pow2 e = (if 0 \<le> e then 2 ^ nat e else 1 / 2 ^ nat (- e))"

definition round_half_even :: "rat \<Rightarrow> int" where
  "round_half_even y =
     (let f = \<lfloor>y\<rfloor>; r = y - of_int f
      in if r < 1 / 2 then f else if 1 / 2 < r then f + 1 else if even f then f else f + 1)"

definition double_of :: "rat \<Rightarrow> double" where
  "double_of x =
     (if x = 0 then 0
      else let a = \<bar>x\<bar>;
               k = bit_length (fst (quotient_of a)) - bit_length (snd (quotient_of a));
               e = (if pow2 k \<le> a then k else k - 1) - 52
           in sgn x * of_int (round_half_even (a / pow2 e)) * pow2 e)"

text \<open>The sum of two doubles, \<open>a + b\<close> of the source.\<close>

definition dadd :: "double \<Rightarrow> double \<Rightarrow> double" where
  "dadd a b = double_of (a + b)"

section \<open>Case study schema (src/types/caseStudySchema.ts)\<close>

text \<open>
  The interfaces, with the fields that the services read. A field declared optional
  (\<open>tool?\<close>, \<open>artifact_id?\<close> of a timeline event) is an option; the string-literal union
  types (\<open>severity\<close>, \<open>evidence_value\<close>, \<open>significance\<close>, the category of a finding) are
  strings, as they are at run time. The category of a lesson is an enumeration, because
  the code puts it in upper case and only the four names of the type are known to have an
  upper-case form in the range of code units modelled.
\<close>

record TimelineEvent =
  timestamp :: string
  event :: string
  evt_artifact_id :: "string option"
  tool :: "string option"
  significance :: string

record ForensicArtifact =
  artifact_id :: string
  art_type :: string
  art_description :: string
  location :: string
  evidence_value :: string

record ToolUsage =
  tool_name :: string
  purpose :: string

record Finding =
  finding_id :: string
  fnd_category :: string
  fnd_description :: string

datatype lesson_category = technical | procedural | legal | communication

fun lesson_category_name :: "lesson_category \<Rightarrow> string" where
  "lesson_category_name technical = ''technical''"
| "lesson_category_name procedural = ''procedural''"
| "lesson_category_name legal = ''legal''"
| "lesson_category_name communication = ''communication''"

record InvestigationLesson =
  les_category :: lesson_category
  les_description :: string
  best_practice :: string

record CaseStudyEnhanced =
  case_id :: string
  title :: string
  summary :: string
  scenario :: string
  industry :: string
  incident_type :: string
  severity :: string
  timeline :: "TimelineEvent list"
  artifacts :: "ForensicArtifact list"
  tools_used :: "ToolUsage list"
  findings :: "Finding list"
  conclusions :: "string list"
  lessons_learned :: "InvestigationLesson list"
  case_keywords :: "string list"

text \<open>A citation and a response; a score or a confidence is a number.\<close>

record Citation =
  cit_case_id :: string
  cit_artifact_id :: "string option"
  cit_finding_id :: "string option"
  confidence :: double

datatype PromptMode = direct_qa | guided_walkthrough | teaching

record RAGResponse =
  resp_query :: string
  resp_mode :: PromptMode
  answer :: string
  citations :: "Citation list"
  resp_confidence :: double
  follow_up_suggestions :: "string list"
  related_topics :: "string list option"

section \<open>Ingestion and search (services/CaseStudyIngestion.ts)\<close>

text \<open>The rule table; each weight is the double of its decimal literal.\<close>

record IngestionRule =
  rule_field :: string
  weight :: double
  indexed :: bool
  trie_indexed :: bool

definition INGESTION_RULES :: "IngestionRule list" where
  "INGESTION_RULES =
    [\<lparr> rule_field = ''case_id'', weight = double_of 1, indexed = True, trie_indexed = True \<rparr>,
     \<lparr> rule_field = ''title'', weight = double_of (95 / 100), indexed = True, trie_indexed = True \<rparr>,
     \<lparr> rule_field = ''summary'', weight = double_of (85 / 100), indexed = True, trie_indexed = False \<rparr>,
     \<lparr> rule_field = ''incident_type'', weight = double_of (9 / 10), indexed = True, trie_indexed = True \<rparr>,
     \<lparr> rule_field = ''industry'', weight = double_of (5 / 10), indexed = True, trie_indexed = False \<rparr>,
     \<lparr> rule_field = ''keywords'', weight = double_of (8 / 10), indexed = True, trie_indexed = True \<rparr>,
     \<lparr> rule_field = ''artifacts.type'', weight = double_of (75 / 100), indexed = True, trie_indexed = True \<rparr>,
     \<lparr> rule_field = ''findings.category'', weight = double_of (7 / 10), indexed = True, trie_indexed = False \<rparr>,
     \<lparr> rule_field = ''tools_used.tool_name'', weight = double_of (65 / 100), indexed = True, trie_indexed = True \<rparr>,
     \<lparr> rule_field = ''lessons_learned.category'', weight = double_of (5 / 10), indexed = True, trie_indexed = False \<rparr>]"

text \<open>
  A JavaScript \<open>Set\<close> of strings keeps its elements in insertion order and ignores a second
  \<open>add\<close> of the same element.
\<close>

definition set_add :: "'a \<Rightarrow> 'a list \<Rightarrow> 'a list" where
  "set_add x xs = (if x \<in> set xs then xs else xs @ [x])"

record IndexedCase =
  ic_case :: CaseStudyEnhanced
  ic_keywords :: "string list"
  artifact_map :: "(string \<times> ForensicArtifact) list"
  finding_map :: "(string \<times> Finding) list"
  tool_names :: "string list"

record SearchResult =
  sr_case_id :: string
  relevance_score :: double
  matched_keywords :: "string list"
  matched_artifacts :: "string list"
  matched_findings :: "string list"

record CaseStudyIngestionService =
  indexedCases :: "(string \<times> IndexedCase) list"
  keywordIndex :: "(string \<times> string list) list"
  artifactTrie :: Trie
  toolTrie :: Trie
  caseTrie :: Trie

definition new_CaseStudyIngestionService :: CaseStudyIngestionService where
  "new_CaseStudyIngestionService =
     \<lparr> indexedCases = [], keywordIndex = [], artifactTrie = new_Trie, toolTrie = new_Trie,
       caseTrie = new_Trie \<rparr>"

text \<open>
  \<open>getNestedValue(obj, path)\<close> on a case study, for the paths of the rule table: a string,
  an array of strings (the truthy, that is non-empty, values of the field in each element
  of an array), or \<open>null\<close> for a path that names no field.
\<close>

datatype nested_value = StringValue string | ArrayValue "string list" | NullValue

definition getNestedValue :: "CaseStudyEnhanced \<Rightarrow> string \<Rightarrow> nested_value" where
  "getNestedValue c p =
     (if p = ''case_id'' then StringValue (case_id c)
      else if p = ''title'' then StringValue (title c)
      else if p = ''summary'' then StringValue (summary c)
      else if p = ''incident_type'' then StringValue (incident_type c)
      else if p = ''industry'' then StringValue (industry c)
      else if p = ''keywords'' then ArrayValue (case_keywords c)
      else if p = ''artifacts.type''
        then ArrayValue (filter (\<lambda>s. s \<noteq> []) (map art_type (artifacts c)))
      else if p = ''findings.category''
        then ArrayValue (filter (\<lambda>s. s \<noteq> []) (map fnd_category (findings c)))
      else if p = ''tools_used.tool_name''
        then ArrayValue (filter (\<lambda>s. s \<noteq> []) (map tool_name (tools_used c)))
      else if p = ''lessons_learned.category''
        then ArrayValue (map (\<lambda>l. lesson_category_name (les_category l)) (lessons_learned c))
      else NullValue)"

text \<open>\<open>extractKeywords(caseStudy, keywords)\<close>: the set \<open>kws\<close> after the rules are applied.\<close>

definition extractKeywords :: "CaseStudyEnhanced \<Rightarrow> string list \<Rightarrow> string list" where
  "extractKeywords c kws =
     foldl (\<lambda>ks rule.
              if \<not> indexed rule then ks
              else (case getNestedValue c (rule_field rule) of
                      ArrayValue vs \<Rightarrow> foldl (\<lambda>ks' v. set_add (toLowerCase v) ks') ks vs
                    | StringValue v \<Rightarrow> set_add (toLowerCase v) ks
                    | NullValue \<Rightarrow> ks))
       kws INGESTION_RULES"

text \<open>
  The last loop of \<open>ingestCase\<close>, over the keywords of the case: each lower-cased keyword
  goes into the set of the case and gets the case id posted under it in the keyword
  index. The state of the loop is the pair of the set and the index.
\<close>

definition index_keyword ::
    "string \<Rightarrow> string list \<times> (string \<times> string list) list \<Rightarrow> string
       \<Rightarrow> string list \<times> (string \<times> string list) list" where
  "index_keyword cid st keyword =
     (let normalized = toLowerCase keyword;
          kws = set_add normalized (fst st);
          idx0 = snd st;
          idx1 = (if map_of idx0 normalized = None then AList.update normalized [] idx0 else idx0);
          posted = (case map_of idx1 normalized of Some ids \<Rightarrow> ids | None \<Rightarrow> [])
      in (kws, AList.update normalized (set_add cid posted) idx1))"

text \<open>\<open>ingestCase(caseStudy)\<close>, statement by statement.\<close>

definition ingestCase :: "CaseStudyIngestionService \<Rightarrow> CaseStudyEnhanced \<Rightarrow> CaseStudyIngestionService" where
  "ingestCase s c =
     (let kws0 = extractKeywords c [];
          amap = foldl (\<lambda>m a. AList.update (artifact_id a) a m) [] (artifacts c);
          atrie = foldl (\<lambda>t a. Trie_insert t (toLowerCase (art_type a))) (artifactTrie s) (artifacts c);
          kws1 = foldl (\<lambda>ks a. set_add (toLowerCase (art_type a)) ks) kws0 (artifacts c);
          fmap = foldl (\<lambda>m f. AList.update (finding_id f) f m) [] (findings c);
          kws2 = foldl (\<lambda>ks f. set_add (fnd_category f) ks) kws1 (findings c);
          tnames = foldl (\<lambda>ns t. set_add (tool_name t) ns) [] (tools_used c);
          ttrie = foldl (\<lambda>t u. Trie_insert t (toLowerCase (tool_name u))) (toolTrie s) (tools_used c);
          kws3 = foldl (\<lambda>ks t. set_add (toLowerCase (tool_name t)) ks) kws2 (tools_used c);
          ctrie = Trie_insert (Trie_insert (caseTrie s) (toLowerCase (case_id c))) (toLowerCase (title c));
          kws4 = set_add (toLowerCase (incident_type c)) (set_add (toLowerCase (case_id c)) kws3);
          (kws5, idx) = foldl (index_keyword (case_id c)) (kws4, keywordIndex s) (case_keywords c)
      in \<lparr> indexedCases =
             AList.update (case_id c)
               \<lparr> ic_case = c, ic_keywords = kws5, artifact_map = amap, finding_map = fmap,
                 tool_names = tnames \<rparr>
               (indexedCases s),
           keywordIndex = idx,
           artifactTrie = atrie,
           toolTrie = ttrie,
           caseTrie = ctrie \<rparr>)"

text \<open>\<open>ingestCases(cases)\<close>.\<close>

definition ingestCases :: "CaseStudyIngestionService \<Rightarrow> CaseStudyEnhanced list \<Rightarrow> CaseStudyIngestionService" where
  "ingestCases s cs = foldl ingestCase s cs"

text \<open>\<open>s.includes(sub)\<close> on strings.\<close>

fun str_includes :: "string \<Rightarrow> string \<Rightarrow> bool" where
  "str_includes [] sub = (sub = [])"
| "str_includes (c # cs) sub = (str_startsWith (c # cs) sub \<or> str_includes cs sub)"

text \<open>
  The character classes of the regular expressions: \<open>\w\<close> is a letter of A to Z or a to z,
  a digit or the underscore; \<open>\s\<close>, among the code units below 256, is tab, line feed,
  vertical tab, form feed, carriage return, space and the no-break space 160.
\<close>

definition is_word_char :: "char \<Rightarrow> bool" where
  "is_word_char c =
     (let n = (of_char c :: nat)
      in (48 \<le> n \<and> n \<le> 57) \<or> (65 \<le> n \<and> n \<le> 90) \<or> n = 95 \<or> (97 \<le> n \<and> n \<le> 122))"

definition is_space :: "char \<Rightarrow> bool" where
  "is_space c = (let n = (of_char c :: nat) in (9 \<le> n \<and> n \<le> 13) \<or> n = 32 \<or> n = 160)"

text \<open>
  \<open>s.split(/\s+/)\<close>: the pieces between the maximal runs of whitespace, with an empty
  piece before a leading and after a trailing run. \<open>cur\<close> is the piece being read and
  \<open>in_sep\<close> tells that the last character was whitespace.
\<close>

fun split_ws :: "string \<Rightarrow> bool \<Rightarrow> string \<Rightarrow> string list" where
  "split_ws cur in_sep [] = [cur]"
| "split_ws cur in_sep (c # cs) =
     (if is_space c then (if in_sep then split_ws cur True cs else cur # split_ws [] True cs)
      else split_ws (cur @ [c]) False cs)"

text \<open>\<open>tokenize(query)\<close>.\<close>

definition tokenize :: "string \<Rightarrow> string list" where
  "tokenize q =
     filter (\<lambda>t. length t > 2)
       (split_ws [] False
          (filter (\<lambda>c. is_word_char c \<or> is_space c \<or> c = CHR ''-'') (toLowerCase q)))"

text \<open>\<open>calculateTermWeight(term)\<close>: \<open>rule?.weight || 0.5\<close>.\<close>

definition calculateTermWeight :: "string \<Rightarrow> double" where
  "calculateTermWeight t =
     (case find (\<lambda>r. str_includes (rule_field r) t) INGESTION_RULES of
        None \<Rightarrow> double_of (5 / 10)
      | Some r \<Rightarrow> (if weight r = 0 then double_of (5 / 10) else weight r))"

text \<open>
  The body of the inner loop of \<open>search\<close>, for one query term and one case id posted under
  it. \<open>results\<close> is the map from case ids to results, in insertion order. The non-null
  assertion on \<open>indexedCases.get(caseId)\<close> does nothing at run time: on a case id that is
  not indexed the next property access raises a \<open>TypeError\<close>.
\<close>

definition new_SearchResult :: "string \<Rightarrow> SearchResult" where
  "new_SearchResult cid =
     \<lparr> sr_case_id = cid, relevance_score = 0, matched_keywords = [], matched_artifacts = [],
       matched_findings = [] \<rparr>"

definition match_artifact :: "string \<Rightarrow> SearchResult \<Rightarrow> string \<times> ForensicArtifact \<Rightarrow> SearchResult" where
  "match_artifact t r kv =
     (if str_includes (toLowerCase (art_type (snd kv))) t \<or>
         str_includes (toLowerCase (art_description (snd kv))) t
      then r\<lparr> matched_artifacts := matched_artifacts r @ [fst kv],
              relevance_score := dadd (relevance_score r) (double_of (3 / 10)) \<rparr>
      else r)"

definition match_finding :: "string \<Rightarrow> SearchResult \<Rightarrow> string \<times> Finding \<Rightarrow> SearchResult" where
  "match_finding t r kv =
     (if str_includes (toLowerCase (fnd_description (snd kv))) t
      then r\<lparr> matched_findings := matched_findings r @ [fst kv],
              relevance_score := dadd (relevance_score r) (double_of (25 / 100)) \<rparr>
      else r)"

definition search_case ::
    "CaseStudyIngestionService \<Rightarrow> string \<Rightarrow> (string \<times> SearchResult) list \<Rightarrow> string
       \<Rightarrow> error + (string \<times> SearchResult) list" where
  "search_case s t results caseId =
     (let results1 = (if map_of results caseId = None
                      then AList.update caseId (new_SearchResult caseId) results else results);
          result = (case map_of results1 caseId of Some r \<Rightarrow> r | None \<Rightarrow> new_SearchResult caseId);
          r1 = result\<lparr> relevance_score := dadd (relevance_score result) (calculateTermWeight t),
                        matched_keywords := matched_keywords result @ [t] \<rparr>
      in case map_of (indexedCases s) caseId of
           None \<Rightarrow> Inl TypeError
         | Some indexedCase \<Rightarrow>
             (let r2 = foldl (match_artifact t) r1 (artifact_map indexedCase);
                  r3 = foldl (match_finding t) r2 (finding_map indexedCase)
              in Inr (AList.update caseId r3 results1)))"

text \<open>A \<open>forEach\<close> whose body may throw: the first exception ends the loop.\<close>

fun forEach :: "('a \<Rightarrow> 'b \<Rightarrow> error + 'a) \<Rightarrow> 'a \<Rightarrow> 'b list \<Rightarrow> error + 'a" where
  "forEach f acc [] = Inr acc"
| "forEach f acc (x # xs) = (case f acc x of Inl e \<Rightarrow> Inl e | Inr acc' \<Rightarrow> forEach f acc' xs)"

definition search_term ::
    "CaseStudyIngestionService \<Rightarrow> (string \<times> SearchResult) list \<Rightarrow> string
       \<Rightarrow> error + (string \<times> SearchResult) list" where
  "search_term s results t =
     forEach (search_case s t) results
       (case map_of (keywordIndex s) t of Some ids \<Rightarrow> ids | None \<Rightarrow> [])"

text \<open>
  The scoring part of \<open>search\<close>: the results of all matched cases, in the order in which
  they were first matched.
\<close>

definition search_results :: "CaseStudyIngestionService \<Rightarrow> string \<Rightarrow> error + SearchResult list" where
  "search_results s q =
     (case forEach (search_term s) [] (tokenize q) of
        Inl e \<Rightarrow> Inl e
      | Inr results \<Rightarrow> Inr (map snd results))"

text \<open>
  \<open>xs.slice(0, limit)\<close>: a negative limit counts from the end. \<open>sort\<close> with the comparator
  \<open>b.relevance_score - a.relevance_score\<close> is a stable sort by descending score: the
  difference of two doubles is positive, zero or negative as the exact difference is.
\<close>

definition slice0 :: "'a list \<Rightarrow> int \<Rightarrow> 'a list" where
  "slice0 xs limit =
     (if limit < 0 then take (nat (int (length xs) + limit)) xs else take (nat limit) xs)"

definition search :: "CaseStudyIngestionService \<Rightarrow> string \<Rightarrow> int \<Rightarrow> error + SearchResult list" where
  "search s q limit =
     (case search_results s q of
        Inl e \<Rightarrow> Inl e
      | Inr rs \<Rightarrow> Inr (slice0 (sort_key (\<lambda>r. - relevance_score r) rs) limit))"

text \<open>\<open>getCaseById\<close>, \<open>getAllCaseIds\<close> and \<open>validateCitation\<close> of the ingestion service.\<close>

definition getCaseById :: "CaseStudyIngestionService \<Rightarrow> string \<Rightarrow> CaseStudyEnhanced option" where
  "getCaseById s caseId = map_option ic_case (map_of (indexedCases s) caseId)"

definition getAllCaseIds :: "CaseStudyIngestionService \<Rightarrow> string list" where
  "getAllCaseIds s = map fst (indexedCases s)"

text \<open>\<open>s.split(sep)\<close> for a separator of one character.\<close>

fun split_on :: "char \<Rightarrow> string \<Rightarrow> string list" where
  "split_on sep [] = [[]]"
| "split_on sep (c # cs) =
     (if c = sep then [] # split_on sep cs
      else (case split_on sep cs of [] \<Rightarrow> [[c]] | p # ps \<Rightarrow> (c # p) # ps))"

definition validateCitation :: "CaseStudyIngestionService \<Rightarrow> string \<Rightarrow> bool" where
  "validateCitation s citation =
     (case split_on CHR '':'' citation of
        [caseId] \<Rightarrow> map_of (indexedCases s) caseId \<noteq> None
      | [caseId, itemId] \<Rightarrow>
          (case map_of (indexedCases s) caseId of
             None \<Rightarrow> False
           | Some ic \<Rightarrow> map_of (artifact_map ic) itemId \<noteq> None \<or> map_of (finding_map ic) itemId \<noteq> None)
      | _ \<Rightarrow> False)"

section \<open>Prompt templates (services/PromptTemplates.ts)\<close>

text \<open>
  The line feed, and the bullet U+2022 of the templates. The bullet is neither a bracket,
  a colon, a dollar sign, whitespace nor a word character.
\<close>

definition nl :: string where
  "nl = [CHR 0x0A]"

definition bullet :: string where
  "bullet = [CHR 0x95]"

text \<open>\<open>xs.join(sep)\<close>.\<close>

fun js_join :: "string \<Rightarrow> string list \<Rightarrow> string" where
  "js_join sep [] = []"
| "js_join sep [x] = x"
| "js_join sep (x # y # ys) = x @ sep @ js_join sep (y # ys)"

text \<open>
  \<open>s.replace(pattern, replacement)\<close> for a string pattern: the first occurrence is replaced,
  and in the replacement \<open>$$\<close> stands for a dollar sign, \<open>$&\<close> for the matched text, \<open>$`\<close> for
  the text in front of the match and \<open>$'\<close> for the text behind it.
\<close>

fun find_sub :: "string \<Rightarrow> string \<Rightarrow> (string \<times> string) option" where
  "find_sub [] pat = (if pat = [] then Some ([], []) else None)"
| "find_sub (c # cs) pat =
     (if str_startsWith (c # cs) pat then Some ([], drop (length pat) (c # cs))
      else map_option (\<lambda>(front, back). (c # front, back)) (find_sub cs pat))"

fun substitution :: "string \<Rightarrow> string \<Rightarrow> string \<Rightarrow> string \<Rightarrow> string" where
  "substitution matched front back (c # d # r) =
     (if c = CHR ''$'' \<and> d = CHR ''$'' then CHR ''$'' # substitution matched front back r
      else if c = CHR ''$'' \<and> d = CHR ''&'' then matched @ substitution matched front back r
      else if c = CHR ''$'' \<and> d = CHR 0x60 then front @ substitution matched front back r
      else if c = CHR ''$'' \<and> d = CHR 0x27 then back @ substitution matched front back r
      else c # substitution matched front back (d # r))"
| "substitution matched front back r = r"

definition js_replace :: "string \<Rightarrow> string \<Rightarrow> string \<Rightarrow> string" where
  "js_replace s pat replacement =
     (case find_sub s pat of
        None \<Rightarrow> s
      | Some (front, back) \<Rightarrow> front @ substitution pat front back replacement @ back)"

definition NON_FORENSIC :: string where
  "NON_FORENSIC =
     ''I apologize, but I specialize exclusively in digital forensics case study analysis and investigation techniques. I can only assist with:''
     @ nl @ nl
     @ bullet @ '' Forensic case study questions'' @ nl
     @ bullet @ '' Investigation methodologies'' @ nl
     @ bullet @ '' Evidence analysis techniques'' @ nl
     @ bullet @ '' Tool usage in forensic contexts'' @ nl
     @ bullet @ '' Forensic concepts and terminology'' @ nl @ nl
     @ ''Please ask a question related to digital forensics case studies or investigation procedures.''"

definition INSUFFICIENT_CONTEXT :: string where
  "INSUFFICIENT_CONTEXT =
     ''I don'' @ [CHR 0x27] @ ''t have enough information in the current case study knowledge base to answer that question accurately. ''
     @ nl @ nl
     @ ''The available case studies cover:'' @ nl
     @ ''{{available_cases}}'' @ nl @ nl
     @ ''Would you like to:'' @ nl
     @ bullet @ '' Rephrase your question to match available cases?'' @ nl
     @ bullet @ '' Ask about general forensic methodology?'' @ nl
     @ bullet @ '' Explore a related topic from the case studies?''"

text \<open>
  \<open>extractCitations(response)\<close>: the matches of \<open>/\[([^\]]+)\]/g\<close>, from left to right without
  overlap, each with all its brackets removed. A match starts at an opening bracket that
  is followed by at least one character other than a closing bracket and then, behind
  the longest run of such characters, by a closing bracket; the search goes on behind it.
\<close>

function extractCitations :: "string \<Rightarrow> string list" where
  "extractCitations [] = []"
| "extractCitations (c # cs) =
     (if c = CHR ''[''
      then (let run = takeWhile (\<lambda>x. x \<noteq> CHR '']'') cs;
                rest = dropWhile (\<lambda>x. x \<noteq> CHR '']'') cs
            in if run \<noteq> [] \<and> rest \<noteq> []
               then filter (\<lambda>x. x \<noteq> CHR ''['') run # extractCitations (tl rest)
               else extractCitations cs)
      else extractCitations cs)"
  by pat_completeness auto
termination
proof (relation "measure length")
  fix c :: char and cs x xa
  assume "xa = dropWhile (\<lambda>x. x \<noteq> CHR '']'') cs"
  have "length (dropWhile (\<lambda>x. x \<noteq> CHR '']'') cs) \<le> length cs"
    by (rule length_dropWhile_le)
  then have "length (tl (dropWhile (\<lambda>x. x \<noteq> CHR '']'') cs)) \<le> length cs"
    by simp
  then show "(tl xa, c # cs) \<in> measure length"
    using \<open>xa = dropWhile (\<lambda>x. x \<noteq> CHR '']'') cs\<close> by simp
qed simp_all

text \<open>\<open>x || y\<close> for a string \<open>x\<close> that may be missing: \<open>y\<close> when \<open>x\<close> is missing or empty.\<close>

definition or_else :: "string option \<Rightarrow> string \<Rightarrow> string" where
  "or_else x y = (case x of None \<Rightarrow> y | Some v \<Rightarrow> (if v = [] then y else v))"

text \<open>A natural number put into a template reads as its decimal digits.\<close>

fun decimal :: "nat \<Rightarrow> string" where
  "decimal n =
     (if n < 10 then [char_of (48 + n)] else decimal (n div 10) @ [char_of (48 + n mod 10)])"

text \<open>
  \<open>buildCaseStudyContext(cases, maxLength)\<close>, called on case studies of the new schema.
  \<open>caseBlock\<close> is the template of the loop body for one case study. Such a case study
  has no fields \<open>id\<close>, \<open>workflow\<close> and \<open>outcomes\<close>: \<open>caseStudy.id\<close> reads \<open>undefined\<close>
  and the two optional chains give \<open>undefined\<close>. \<open>substring(0, 200)\<close> is the first 200
  code units.
\<close>

definition caseBlock :: "CaseStudyEnhanced \<Rightarrow> string" where
  "caseBlock caseStudy =
     nl @ ''=== CASE STUDY: '' @ case_id caseStudy @ '' ==='' @ nl
     @ ''Title: '' @ or_else (Some (title caseStudy)) ''undefined'' @ nl
     @ ''Summary: '' @ or_else (Some (summary caseStudy)) (take 200 (scenario caseStudy)) @ nl
     @ nl
     @ ''ARTIFACTS:'' @ nl
     @ js_join nl
         (map (\<lambda>(idx, art). ''[undefined:artifact_'' @ decimal (idx + 1) @ ''] ''
                  @ art_type art @ '': '' @ art_description art
                  @ '' ('' @ location art @ '')'')
            (enumerate 0 (artifacts caseStudy)))
     @ nl @ nl
     @ ''WORKFLOW:'' @ nl
     @ ''N/A'' @ nl
     @ nl
     @ ''FINDINGS:'' @ nl
     @ or_else (Some (js_join (nl @ bullet @ '' '') (map fnd_description (findings caseStudy))))
         ''N/A''
     @ nl @ nl
     @ ''---'' @ nl"

text \<open>
  The loop over the cases: \<open>ctx\<close> is the context built so far. The loop ends at the first
  block that does not fit.
\<close>

fun buildCaseStudyContext_loop :: "string \<Rightarrow> CaseStudyEnhanced list \<Rightarrow> int \<Rightarrow> string" where
  "buildCaseStudyContext_loop ctx [] maxLength = ctx"
| "buildCaseStudyContext_loop ctx (caseStudy # rest) maxLength =
     (if int (length ctx) + int (length (caseBlock caseStudy)) > maxLength then ctx
      else buildCaseStudyContext_loop (ctx @ caseBlock caseStudy) rest maxLength)"

definition buildCaseStudyContext :: "CaseStudyEnhanced list \<Rightarrow> int \<Rightarrow> string" where
  "buildCaseStudyContext cases maxLength = buildCaseStudyContext_loop [] cases maxLength"

section \<open>The answer service (services/CaseStudyRAG.ts)\<close>

text \<open>\<open>detectPromptMode(query)\<close> and \<open>isForensicQuery(query)\<close>.\<close>

definition detectPromptMode :: "string \<Rightarrow> PromptMode" where
  "detectPromptMode q =
     (let normalized = toLowerCase q;
          walkthroughKeywords = [''how do i'', ''step by step'', ''guide me'', ''walkthrough'',
            ''investigate'', ''what steps'', ''procedure'', ''process''];
          teachingKeywords = [''explain'', ''what is'', ''how does'', ''teach me'',
            ''learn about'', ''understand'', ''concept'', ''why'']
      in if list_ex (\<lambda>kw. str_includes normalized kw) walkthroughKeywords then guided_walkthrough
         else if list_ex (\<lambda>kw. str_includes normalized kw) teachingKeywords then teaching
         else direct_qa)"

definition isForensicQuery :: "string \<Rightarrow> bool" where
  "isForensicQuery q =
     (let normalized = toLowerCase q;
          allowedGeneral = [''hello'', ''hi'', ''help'', ''what can you'', ''who are you''];
          forensicKeywords = [''forensic'', ''investigation'', ''case'', ''artifact'', ''evidence'',
            ''malware'', ''ransomware'', ''breach'', ''incident'', ''analysis'',
            ''tool'', ''autopsy'', ''volatility'', ''wireshark'', ''memory'',
            ''disk'', ''registry'', ''log'', ''timeline'', ''hash'', ''mft'',
            ''ntfs'', ''file system'', ''network'', ''packet'', ''pcap'']
      in if list_ex (\<lambda>kw. str_includes normalized kw) allowedGeneral then True
         else list_ex (\<lambda>kw. str_includes normalized kw) forensicKeywords)"

record CaseStudyRAGService =
  ingestionService :: CaseStudyIngestionService
  enhancedCases :: "(string \<times> CaseStudyEnhanced) list"

definition new_CaseStudyRAGService :: CaseStudyRAGService where
  "new_CaseStudyRAGService =
     \<lparr> ingestionService = new_CaseStudyIngestionService, enhancedCases = [] \<rparr>"

text \<open>
  \<open>initializeFromLegacy(legacyCases)\<close>. The conversion \<open>migrateLegacyCase\<close> of a legacy
  record is a parameter here: what follows holds for every conversion.
\<close>

definition initializeFromLegacy ::
    "('l \<Rightarrow> CaseStudyEnhanced) \<Rightarrow> CaseStudyRAGService \<Rightarrow> 'l list \<Rightarrow> CaseStudyRAGService" where
  "initializeFromLegacy migrateLegacyCase svc legacyCases =
     (let enhanced = map migrateLegacyCase legacyCases
      in \<lparr> ingestionService = ingestCases (ingestionService svc) enhanced,
           enhancedCases = foldl (\<lambda>m c. AList.update (case_id c) c m) (enhancedCases svc) enhanced \<rparr>)"

text \<open>
  \<open>generateDirectQA(query, context, cases)\<close>; none of the three generators reads its
  context. \<open>cases[0]\<close> of an empty array is \<open>undefined\<close>,
  and reading a property of it raises a \<open>TypeError\<close>; so does \<open>tools_used[0].purpose\<close>
  of a case without tools and \<open>artifacts[0].evidence_value\<close> of a case without artifacts.
  An \<open>undefined\<close> put into a template reads \<open>undefined\<close>.
\<close>

definition generateDirectQA :: "string \<Rightarrow> string \<Rightarrow> CaseStudyEnhanced list \<Rightarrow> error + string" where
  "generateDirectQA q ctx cases =
     (case cases of
        [] \<Rightarrow> Inl TypeError
      | firstCase # _ \<Rightarrow>
          if str_includes (toLowerCase q) ''what tool'' \<or> str_includes (toLowerCase q) ''which tool''
          then (let tools = take 3 (map tool_name (tools_used firstCase))
                in case tools_used firstCase of
                     [] \<Rightarrow> Inl TypeError
                   | tool0 # _ \<Rightarrow>
                       Inr (''The investigation used: '' @ js_join '', '' tools
                            @ '' ['' @ case_id firstCase @ ''].'' @ nl @ nl
                            @ ''For example, '' @ tool_name tool0 @ '' was used to '' @ purpose tool0 @ '' ''
                            @ ''['' @ case_id firstCase @ '':''
                            @ or_else (case artifacts firstCase of [] \<Rightarrow> None | a # _ \<Rightarrow> Some (artifact_id a))
                                ''artifact_1''
                            @ ''].''))
          else if str_includes (toLowerCase q) ''artifact''
          then (case take 3 (artifacts firstCase) of
                  [] \<Rightarrow> Inl TypeError
                | art0 # arts \<Rightarrow>
                    Inr (''Key artifacts analyzed:'' @ nl
                         @ js_join nl
                             (map (\<lambda>art. bullet @ '' **'' @ art_type art @ ''** ['' @ case_id firstCase
                                      @ '':'' @ artifact_id art @ '']: '' @ art_description art)
                                (art0 # arts))
                         @ nl @ nl @ ''These artifacts provided '' @ evidence_value art0
                         @ '' evidence value for the investigation.''))
          else if str_includes (toLowerCase q) ''timeline'' \<or> str_includes (toLowerCase q) ''when''
          then Inr (''**Timeline of Events** ['' @ case_id firstCase @ '']:'' @ nl
                    @ js_join nl
                        (map (\<lambda>evt. bullet @ '' '' @ timestamp evt @ '': '' @ event evt
                                 @ '' [Tool: '' @ or_else (tool evt) ''N/A'' @ '']'')
                           (take 3 (timeline firstCase))))
          else Inr (''**'' @ title firstCase @ ''** ['' @ case_id firstCase @ '']'' @ nl @ nl
                    @ summary firstCase @ nl @ nl
                    @ ''**Incident Type**: '' @ incident_type firstCase
                    @ '' ('' @ severity firstCase @ '' severity)'' @ nl
                    @ ''**Key Finding**: ''
                    @ or_else (case findings firstCase of [] \<Rightarrow> None | f # _ \<Rightarrow> Some (fnd_description f))
                        (case conclusions firstCase of [] \<Rightarrow> ''undefined'' | x # _ \<Rightarrow> x)
                    @ '' ''
                    @ ''['' @ case_id firstCase @ '':''
                    @ or_else (case findings firstCase of [] \<Rightarrow> None | f # _ \<Rightarrow> Some (finding_id f))
                        ''finding_1''
                    @ '']''))"

text \<open>
  \<open>generateWalkthrough(query, context, cases)\<close>. \<open>walkthrough_step\<close> is the text added
  for one of the first three timeline events, \<open>idx\<close> counting from 0.
\<close>

definition walkthrough_step :: "CaseStudyEnhanced \<Rightarrow> nat \<times> TimelineEvent \<Rightarrow> string" where
  "walkthrough_step firstCase step =
     (let idx = fst step; evt = snd step
      in ''**Step '' @ decimal (idx + 1) @ '': '' @ event evt @ ''**'' @ nl
         @ ''- **Tool**: '' @ or_else (tool evt) ''Manual analysis'' @ nl
         @ (case find (\<lambda>a. Some (artifact_id a) = evt_artifact_id evt) (artifacts firstCase) of
              None \<Rightarrow> []
            | Some artifact \<Rightarrow>
                ''- **Artifact**: '' @ art_type artifact @ '' ['' @ case_id firstCase @ '':''
                @ artifact_id artifact @ '']'' @ nl
                @ ''- **Location**: '' @ location artifact @ nl)
         @ ''- **Significance**: '' @ significance evt @ nl @ nl)"

definition generateWalkthrough :: "string \<Rightarrow> string \<Rightarrow> CaseStudyEnhanced list \<Rightarrow> error + string" where
  "generateWalkthrough q ctx cases =
     (case cases of
        [] \<Rightarrow> Inl TypeError
      | firstCase # _ \<Rightarrow>
          Inr (''**Investigation Walkthrough: '' @ title firstCase @ ''**'' @ nl @ nl
               @ concat (map (walkthrough_step firstCase) (enumerate 0 (take 3 (timeline firstCase))))
               @ nl @ ''*Cite: ['' @ case_id firstCase @ '':workflow]*'' @ nl @ nl
               @ ''**Next Steps**: Continue analyzing remaining artifacts or ask about specific tools used.''))"

text \<open>
  \<open>toUpperCase\<close>, restricted to the letters a to z: its only argument in the code is the
  name of a lesson category.
\<close>

definition toUpperCase :: "string \<Rightarrow> string" where
  "toUpperCase s =
     map (\<lambda>c. let n = (of_char c :: nat) in if 97 \<le> n \<and> n \<le> 122 then char_of (n - 32) else c) s"

definition generateTeaching :: "string \<Rightarrow> string \<Rightarrow> CaseStudyEnhanced list \<Rightarrow> error + string" where
  "generateTeaching q ctx cases =
     (case cases of
        [] \<Rightarrow> Inl TypeError
      | firstCase # _ \<Rightarrow>
          (let teaching0 = ''**Forensic Concept: Illustrated by '' @ title firstCase @ ''**'' @ nl @ nl;
               normalized = toLowerCase q
           in if str_includes normalized ''artifact'' \<or> str_includes normalized ''evidence''
              then (case artifacts firstCase of
                      [] \<Rightarrow> Inl TypeError
                    | artifact # _ \<Rightarrow>
                        Inr (teaching0
                             @ ''**Understanding Forensic Artifacts**'' @ nl @ nl
                             @ ''Artifacts are digital traces left by system activity. For example:'' @ nl @ nl
                             @ ''**'' @ art_type artifact @ ''** ['' @ case_id firstCase @ '':''
                             @ artifact_id artifact @ '']'' @ nl
                             @ ''- **What it is**: '' @ art_description artifact @ nl
                             @ ''- **Where found**: '' @ location artifact @ nl
                             @ ''- **Evidence value**: '' @ evidence_value artifact @ nl @ nl
                             @ ''In this case, this artifact was ''
                             @ (if evidence_value artifact = ''high'' then ''critical'' else ''important'')
                             @ '' ''
                             @ ''for establishing the investigation timeline.''))
              else if str_includes normalized ''timeline'' \<or> str_includes normalized ''sequence''
              then Inr (teaching0
                        @ ''**Timeline Analysis in Forensics**'' @ nl @ nl
                        @ ''Timeline reconstruction helps investigators understand the sequence of events. ''
                        @ ''In ['' @ case_id firstCase @ ''], the timeline revealed:'' @ nl @ nl
                        @ concat (map (\<lambda>evt. bullet @ '' '' @ timestamp evt @ '': '' @ event evt @ nl)
                                    (take 3 (timeline firstCase)))
                        @ nl @ ''This sequential analysis identified the attack progression and attribution.'')
              else Inr (teaching0
                        @ ''**Case Overview**: '' @ summary firstCase @ nl @ nl
                        @ ''**Key Learning Points**:'' @ nl
                        @ concat (map (\<lambda>lesson.
                                         nl @ ''**'' @ toUpperCase (lesson_category_name (les_category lesson))
                                         @ ''**: '' @ les_description lesson @ nl
                                         @ ''*Best Practice*: '' @ best_practice lesson @ nl)
                                    (take 3 (lessons_learned firstCase))))))"

text \<open>\<open>generateResponse(query, mode, context, cases)\<close>.\<close>

definition generateResponse ::
    "string \<Rightarrow> PromptMode \<Rightarrow> string \<Rightarrow> CaseStudyEnhanced list \<Rightarrow> error + string" where
  "generateResponse q m ctx cases =
     (case m of
        direct_qa \<Rightarrow> generateDirectQA q ctx cases
      | guided_walkthrough \<Rightarrow> generateWalkthrough q ctx cases
      | teaching \<Rightarrow> generateTeaching q ctx cases)"

text \<open>\<open>parseCitation(citationStr)\<close>.\<close>

definition parseCitation :: "string \<Rightarrow> Citation" where
  "parseCitation citationStr =
     (let parts = split_on CHR '':'' citationStr
      in \<lparr> cit_case_id = (case parts of [] \<Rightarrow> [] | p # _ \<Rightarrow> p),
           cit_artifact_id = (if 1 < length parts then Some (parts ! 1) else None),
           cit_finding_id = (if 2 < length parts then Some (parts ! 2) else None),
           confidence = double_of (8 / 10) \<rparr>)"

text \<open>\<open>generateFollowUps(mode, cases)\<close>.\<close>

definition generateFollowUps :: "PromptMode \<Rightarrow> CaseStudyEnhanced list \<Rightarrow> error + string list" where
  "generateFollowUps m cases =
     (case m of
        direct_qa \<Rightarrow>
          (case cases of
             [] \<Rightarrow> Inl TypeError
           | firstCase # _ \<Rightarrow>
               Inr [''What tools were used in '' @ case_id firstCase @ ''?'',
                    ''Show me the timeline for '' @ case_id firstCase,
                    ''What were the key findings?''])
      | guided_walkthrough \<Rightarrow>
          Inr [''Show me the next investigation steps'',
               ''How do I analyze similar artifacts?'',
               ''What tools should I use?'']
      | teaching \<Rightarrow>
          Inr [''Explain another forensic concept'',
               ''Show me a practical example'',
               ''What are the best practices?''])"

text \<open>\<open>extractRelatedTopics(cases)\<close>.\<close>

definition extractRelatedTopics :: "CaseStudyEnhanced list \<Rightarrow> string list" where
  "extractRelatedTopics cases =
     take 5 (foldl (\<lambda>topics c. foldl (\<lambda>ts kw. set_add kw ts) (set_add (incident_type c) topics)
                                  (take 3 (case_keywords c)))
               [] cases)"

text \<open>
  The citations of an answer that pass \<open>validateCitation\<close>, and the citations built from
  the search results, which the response carries when none of the answer's own passes.
\<close>

definition validatedCitations :: "CaseStudyIngestionService \<Rightarrow> string \<Rightarrow> string list" where
  "validatedCitations s answerText = filter (validateCitation s) (extractCitations answerText)"

definition searchCitation :: "SearchResult \<Rightarrow> Citation" where
  "searchCitation r =
     \<lparr> cit_case_id = sr_case_id r,
       cit_artifact_id = (case matched_artifacts r of [] \<Rightarrow> None | a # _ \<Rightarrow> Some a),
       cit_finding_id = (case matched_findings r of [] \<Rightarrow> None | f # _ \<Rightarrow> Some f),
       confidence = relevance_score r \<rparr>"

text \<open>
  \<open>processQuery(query)\<close>: the response, or the exception that one of the calls raises.
\<close>

definition processQuery :: "CaseStudyRAGService \<Rightarrow> string \<Rightarrow> error + RAGResponse" where
  "processQuery svc q =
     (if \<not> isForensicQuery q
      then Inr \<lparr> resp_query = q, resp_mode = direct_qa, answer = NON_FORENSIC, citations = [],
                 resp_confidence = 0,
                 follow_up_suggestions =
                   [''Show me a case study'', ''Explain memory forensics'',
                    ''How to investigate ransomware?''],
                 related_topics = None \<rparr>
      else
        (let m = detectPromptMode q
         in case search (ingestionService svc) q 3 of
              Inl e \<Rightarrow> Inl e
            | Inr searchResults \<Rightarrow>
                if length searchResults = 0
                then (let availableCases =
                            js_join nl (map (\<lambda>i. bullet @ '' '' @ i) (getAllCaseIds (ingestionService svc)))
                      in Inr \<lparr> resp_query = q, resp_mode = m,
                               answer = js_replace INSUFFICIENT_CONTEXT ''{{available_cases}}'' availableCases,
                               citations = [], resp_confidence = 0,
                               follow_up_suggestions =
                                 [''Tell me about ransomware-investigation'',
                                  ''What artifacts are in insider-data-theft case?'',
                                  ''List all case studies''],
                               related_topics = None \<rparr>)
                else
                  (let relevantCases =
                         List.map_filter (\<lambda>r. map_of (enhancedCases svc) (sr_case_id r)) searchResults;
                       ctx = buildCaseStudyContext relevantCases 6000;
                       searchCitations = map searchCitation searchResults
                   in case generateResponse q m ctx relevantCases of
                        Inl e \<Rightarrow> Inl e
                      | Inr answerText \<Rightarrow>
                          (let validated = map parseCitation
                                 (validatedCitations (ingestionService svc) answerText)
                           in case generateFollowUps m relevantCases of
                                Inl e \<Rightarrow> Inl e
                              | Inr followUpSuggestions \<Rightarrow>
                                  Inr \<lparr> resp_query = q, resp_mode = m, answer = answerText,
                                        citations = (if length validated > 0 then validated
                                                     else searchCitations),
                                        resp_confidence =
                                          (case searchResults of
                                             [] \<Rightarrow> double_of (5 / 10)
                                           | r # _ \<Rightarrow> (if relevance_score r = 0
                                                        then double_of (5 / 10)
                                                        else relevance_score r)),
                                        follow_up_suggestions = followUpSuggestions,
                                        related_topics = Some (extractRelatedTopics relevantCases) \<rparr>))))"

section \<open>Auxiliary notions for the proofs\<close>

subsection \<open>Trie\<close>

text \<open>What a path holds: nothing, or the value stored at the end-of-word node there.\<close>

definition entry :: "TrieNode \<Rightarrow> string \<Rightarrow> string option option" where
  "entry n p = (case findNode n p of None \<Rightarrow> None
      | Some m \<Rightarrow> if isEndOfWord m then Some (node_value m) else None)"


subsection \<open>LRU cache\<close>

text \<open>The \<open>next\<close> and \<open>prev\<close> fields of the store, as functions on references.\<close>

definition nexts :: "('k, 'v) LRUNode list \<Rightarrow> nat \<Rightarrow> nat option" where
  "nexts h = (\<lambda>r. lru_next (h ! r))"

definition prevs :: "('k, 'v) LRUNode list \<Rightarrow> nat \<Rightarrow> nat option" where
  "prevs h = (\<lambda>r. lru_prev (h ! r))"

text \<open>\<open>linked f x rs y\<close>: following the field \<open>f\<close> from \<open>x\<close> visits the nodes \<open>rs\<close> and
  arrives at \<open>y\<close>.\<close>

primrec linked :: "(nat \<Rightarrow> nat option) \<Rightarrow> nat option \<Rightarrow> nat list \<Rightarrow> nat option \<Rightarrow> bool" where
  "linked f x [] y \<longleftrightarrow> x = y"
| "linked f x (r # rs) y \<longleftrightarrow> x = Some r \<and> linked f (f r) rs y"

text \<open>
  The nodes \<open>rs\<close>, most recently used first, form the doubly linked list of the cache:
  they are distinct allocated nodes, \<open>next\<close> leads from the head through them to \<open>null\<close>,
  and \<open>prev\<close> leads from the tail back through them to \<open>null\<close>.
\<close>

definition dll :: "('k, 'v) LRUCache \<Rightarrow> nat list \<Rightarrow> bool" where
  "dll c rs \<longleftrightarrow>
     distinct rs \<and> list_all (\<lambda>r. r < length (heap c)) rs \<and>
     linked (nexts (heap c)) (head c) rs None \<and>
     linked (prevs (heap c)) (tail c) (rev rs) None"

text \<open>The map holds exactly the nodes of the list, each under its own key.\<close>

definition cache_ok :: "('k, 'v) LRUCache \<Rightarrow> nat list \<Rightarrow> bool" where
  "cache_ok c rs \<longleftrightarrow>
     distinct (map fst (cache c)) \<and>
     (\<forall>k r. map_of (cache c) k = Some r \<longleftrightarrow> r \<in> set rs \<and> lru_key (heap c ! r) = k)"

text \<open>\<open>lru_rel c ks\<close>: the cache is well formed and \<open>ks\<close> are the keys of its list, most
  recently used first.\<close>

definition lru_rel :: "('k, 'v) LRUCache \<Rightarrow> 'k list \<Rightarrow> bool" where
  "lru_rel c ks \<longleftrightarrow>
     (\<exists>rs. dll c rs \<and> cache_ok c rs \<and> ks = map (\<lambda>r. lru_key (heap c ! r)) rs)"

text \<open>
  What the public operations show of a cache that holds the keys \<open>ks\<close>, most recently
  used first: \<open>keys()\<close> returns them, \<open>size()\<close> is their number, \<open>has(k)\<close> is true for them
  and for no other key, and \<open>get(k)\<close> returns \<open>undefined\<close> for every other key and for none
  of them.
\<close>

definition cache_holds :: "('k, 'v) LRUCache \<Rightarrow> 'k list \<Rightarrow> bool" where
  "cache_holds c ks \<longleftrightarrow>
     LRU_keys c = Some ks \<and> LRU_size c = length ks \<and>
     (\<forall>k. LRU_has c k \<longleftrightarrow> k \<in> set ks) \<and>
     (\<forall>k. snd (LRU_get c k) = None \<longleftrightarrow> k \<notin> set ks)"

subsection \<open>Ingestion and search\<close>

text \<open>
  The ledger is consistent: every indexed case is filed under its own case id, and its
  artifact and finding maps have exactly the ids of its artifacts and findings as keys.
\<close>

definition ledger_ok :: "CaseStudyIngestionService \<Rightarrow> bool" where
  "ledger_ok s \<longleftrightarrow>
     (\<forall>cid ic. map_of (indexedCases s) cid = Some ic \<longrightarrow>
        case_id (ic_case ic) = cid \<and>
        (\<forall>a. map_of (artifact_map ic) a \<noteq> None \<longleftrightarrow> a \<in> artifact_id ` set (artifacts (ic_case ic))) \<and>
        (\<forall>f. map_of (finding_map ic) f \<noteq> None \<longleftrightarrow> f \<in> finding_id ` set (findings (ic_case ic))))"

text \<open>
  An example ledger entry for the concrete evaluations below: the case study that
  \<open>migrateLegacyCase\<close> produces from the legacy record with id \<open>phishing-campaign\<close>,
  scenario \<open>Hospital staff received phishing mail\<close>, one artifact (type \<open>Email Logs\<close>,
  description \<open>Mail gateway export\<close>, location \<open>mx01\<close>), one workflow step (step 1,
  action \<open>Review mail headers\<close>, tool \<open>Wireshark\<close>) and no outcomes or legal notes.
\<close>

definition example_case :: CaseStudyEnhanced where
  "example_case =
     \<lparr> case_id = ''phishing-campaign'',
       title = ''Phishing Campaign'',
       summary = ''Hospital staff received phishing mail'',
       scenario = ''Hospital staff received phishing mail'',
       industry = ''Healthcare'',
       incident_type = ''Incident'',
       severity = ''medium'',
       timeline = [\<lparr> timestamp = ''Step 1'', event = ''Review mail headers'',
                     evt_artifact_id = Some ''phishing-campaign_artifact_1'',
                     tool = Some ''Wireshark'', significance = ''minor'' \<rparr>],
       artifacts = [\<lparr> artifact_id = ''phishing-campaign_artifact_1'', art_type = ''Email Logs'',
                      art_description = ''Mail gateway export'', location = ''mx01'',
                      evidence_value = ''medium'' \<rparr>],
       tools_used = [\<lparr> tool_name = ''Wireshark'', purpose = ''Review mail headers'' \<rparr>],
       findings = [],
       conclusions = [],
       lessons_learned = [],
       case_keywords = [''phishing'', ''campaign'', ''email'', ''logs'', ''wireshark'',
                        ''hospital'', ''staff'', ''received'', ''mail''] \<rparr>"

definition example_ledger :: CaseStudyIngestionService where
  "example_ledger = ingestCases new_CaseStudyIngestionService [example_case]"

definition example_service :: CaseStudyRAGService where
  "example_service = initializeFromLegacy (\<lambda>c. c) new_CaseStudyRAGService [example_case]"

text \<open>
  A service that knows two case studies: one with the id \<open>a$&b\<close>, and the example.
\<close>

definition two_case_service :: CaseStudyRAGService where
  "two_case_service =
     initializeFromLegacy (\<lambda>c. c) new_CaseStudyRAGService
       [example_case\<lparr> case_id := ''a$&b'' \<rparr>, example_case]"

section \<open>Properties of the numbers\<close>

text \<open>
  The rounding is the one of the standard: for a positive \<open>x\<close> the result is a
  significand \<open>m\<close> of at most 53 bits times a power of two, and it differs from \<open>x\<close> by
  at most half a unit of the last digit of the significand.
\<close>

lemma bit_length_nonneg: "0 \<le> bit_length n"
proof (induction n rule: bit_length.induct)
  case (1 n)
  show ?case
  proof (cases "n \<le> 0")
    case True
    then show ?thesis by (subst bit_length.simps) simp
  next
    case False
    from "1.IH"[OF False] have "0 \<le> bit_length (n div 2) + 1" by simp
    with False show ?thesis by (subst bit_length.simps) simp
  qed
qed

lemma bit_length_pos: "0 < n \<Longrightarrow> 0 < bit_length n"
  using bit_length_nonneg[of "n div 2"] by (subst bit_length.simps) simp

lemma bit_length_bounds:
  "0 < n \<Longrightarrow> 2 ^ nat (bit_length n - 1) \<le> n \<and> n < 2 ^ nat (bit_length n)"
proof (induction n rule: bit_length.induct)
  case (1 n)
  show ?case
  proof (cases "n div 2 = 0")
    case True
    with "1.prems" have "n = 1" by presburger
    moreover have "bit_length 1 = 1" by code_simp
    ultimately show ?thesis by simp
  next
    case False
    with "1.prems" have h: "0 < n div 2" by presburger
    from "1.IH"[OF _ h] "1.prems"
    have lo: "2 ^ nat (bit_length (n div 2) - 1) \<le> n div 2"
      and hi: "n div 2 < 2 ^ nat (bit_length (n div 2))" by simp_all
    from bit_length_pos[OF h] have b: "0 < bit_length (n div 2)" .
    have eq: "bit_length n = bit_length (n div 2) + 1"
      using "1.prems" by (subst bit_length.simps) simp
    have n1: "nat (bit_length n - 1) = Suc (nat (bit_length (n div 2) - 1))"
      using b eq by (simp add: Suc_nat_eq_nat_zadd1)
    have n2: "nat (bit_length n) = Suc (nat (bit_length (n div 2)))"
      using b eq by (simp add: Suc_nat_eq_nat_zadd1)
    from lo have "2 * 2 ^ nat (bit_length (n div 2) - 1) \<le> 2 * (n div 2)" by simp
    also have "\<dots> \<le> n" by presburger
    finally have A: "2 ^ nat (bit_length n - 1) \<le> n" by (simp add: n1)
    from hi have "n div 2 + 1 \<le> 2 ^ nat (bit_length (n div 2))" by simp
    then have "2 * (n div 2) + 2 \<le> 2 * 2 ^ nat (bit_length (n div 2))" by simp
    moreover have "n < 2 * (n div 2) + 2" by presburger
    ultimately have B: "n < 2 ^ nat (bit_length n)" by (simp add: n2)
    from A B show ?thesis ..
  qed
qed

lemma pow2_powi: "pow2 e = 2 powi e"
  by (simp add: pow2_def power_int_def field_simps)

lemma pow2_pos [simp]: "0 < pow2 e"
  by (simp add: pow2_powi)

lemma pow2_add: "pow2 (i + j) = pow2 i * pow2 j"
  by (simp add: pow2_powi power_int_add)

lemma pow2_mono: "i \<le> j \<Longrightarrow> pow2 i \<le> pow2 j"
  by (simp add: pow2_powi power_int_increasing)

lemma of_int_bit_length:
  assumes "0 < n"
  shows "pow2 (bit_length n - 1) \<le> of_int n" and "of_int n < pow2 (bit_length n)"
proof -
  from bit_length_bounds[OF assms] bit_length_pos[OF assms]
  have a: "2 ^ nat (bit_length n - 1) \<le> n" and b: "n < 2 ^ nat (bit_length n)"
    and p: "0 < bit_length n" by simp_all
  from a have "of_int (2 ^ nat (bit_length n - 1)) \<le> (of_int n :: rat)"
    by (simp only: of_int_le_iff)
  with p show "pow2 (bit_length n - 1) \<le> of_int n" by (simp add: pow2_def)
  from b have "(of_int n :: rat) < of_int (2 ^ nat (bit_length n))"
    by (simp only: of_int_less_iff)
  with p show "of_int n < pow2 (bit_length n)" by (simp add: pow2_def)
qed

lemma pow2_diff: "pow2 (i - j) = pow2 i / pow2 j"
  by (simp add: pow2_powi power_int_diff)

lemma pow2_nonzero [simp]: "pow2 e \<noteq> 0"
  by (metis less_irrefl pow2_pos)

lemma pow2_numeral: "pow2 52 = 2 ^ 52" "pow2 53 = 2 ^ 53"
  by (simp_all add: pow2_def)

lemma round_half_even_near: "\<bar>of_int (round_half_even y) - y\<bar> \<le> 1 / 2"
proof -
  have "of_int \<lfloor>y\<rfloor> \<le> y" "y < of_int \<lfloor>y\<rfloor> + 1" by linarith+
  then show ?thesis
    by (auto simp: round_half_even_def Let_def abs_le_iff)
qed

lemma round_half_even_mono:
  "of_int n \<le> y \<Longrightarrow> n \<le> round_half_even y"
  "y \<le> of_int n \<Longrightarrow> round_half_even y \<le> n"
proof -
  assume "of_int n \<le> y"
  then have "n \<le> \<lfloor>y\<rfloor>" by (simp add: le_floor_iff)
  then show "n \<le> round_half_even y"
    by (auto simp: round_half_even_def Let_def)
next
  assume a: "y \<le> of_int n"
  show "round_half_even y \<le> n"
  proof (cases "y = of_int n")
    case True
    then show ?thesis by (simp add: round_half_even_def)
  next
    case False
    with a have "y < of_int n" by simp
    then have "\<lfloor>y\<rfloor> < n" by (simp add: floor_less_iff)
    then show ?thesis by (auto simp: round_half_even_def Let_def)
  qed
qed

lemma double_of_bracket:
  assumes "0 < x"
  obtains e where "double_of x = of_int (round_half_even (x / pow2 e)) * pow2 e"
    and "pow2 52 \<le> x / pow2 e" and "x / pow2 e < pow2 53"
proof -
  obtain p q where pq: "quotient_of x = (p, q)" by (cases "quotient_of x")
  then have x: "x = of_int p / of_int q" and q: "0 < q"
    by (simp_all add: quotient_of_div quotient_of_denom_pos)
  with assms(1) have p: "0 < p" by (simp add: zero_less_divide_iff)
  note bp = of_int_bit_length[OF p] and bq = of_int_bit_length[OF q]
  define k where "k = bit_length p - bit_length q"
  define fl where "fl = (if pow2 k \<le> x then k else k - 1)"
  define e where "e = fl - 52"
  have qpos: "(0::rat) < of_int q" and ppos: "(0::rat) < of_int p" using p q by simp_all
  have "pow2 (bit_length p - 1) / pow2 (bit_length q) < of_int p / of_int q"
  proof -
    have "pow2 (bit_length p - 1) / pow2 (bit_length q) \<le> of_int p / pow2 (bit_length q)"
      using bp(1) by (rule divide_right_mono) (simp add: less_imp_le)
    also have "\<dots> < of_int p / of_int q"
      using bq(2) ppos by (rule divide_strict_left_mono) (simp add: q zero_less_mult_iff)
    finally show ?thesis .
  qed
  moreover have "pow2 (k - 1) = pow2 (bit_length p - 1) / pow2 (bit_length q)"
    by (simp add: k_def pow2_diff[symmetric] algebra_simps)
  ultimately have lo: "pow2 (k - 1) < x" by (simp add: x)
  have "of_int p / of_int q < pow2 (bit_length p) / pow2 (bit_length q - 1)"
  proof -
    have "of_int p / of_int q < pow2 (bit_length p) / of_int q"
      using bp(2) qpos by (rule divide_strict_right_mono)
    also have "\<dots> \<le> pow2 (bit_length p) / pow2 (bit_length q - 1)"
      using bq(1) by (rule divide_left_mono) (simp_all add: less_imp_le q zero_less_mult_iff)
    finally show ?thesis .
  qed
  moreover have "pow2 (k + 1) = pow2 (bit_length p) / pow2 (bit_length q - 1)"
    by (simp add: k_def pow2_diff[symmetric] algebra_simps)
  ultimately have hi: "x < pow2 (k + 1)" by (simp add: x)
  have fl: "pow2 fl \<le> x" "x < pow2 (fl + 1)"
    using lo hi by (auto simp: fl_def)
  have "fl = 52 + e" "fl + 1 = 53 + e" by (simp_all add: e_def)
  then have "pow2 fl = pow2 52 * pow2 e" "pow2 (fl + 1) = pow2 53 * pow2 e"
    by (simp_all only: pow2_add)
  with fl have 2: "pow2 52 \<le> x / pow2 e" and 3: "x / pow2 e < pow2 53"
    by (simp_all add: pos_le_divide_eq pos_divide_less_eq)
  have "double_of x = of_int (round_half_even (x / pow2 e)) * pow2 e"
    using assms(1) by (simp add: double_of_def Let_def e_def fl_def k_def pq)
  then show thesis using 2 3 by (rule that)
qed

lemma double_of_nearest:
  assumes "0 < x"
  shows "\<exists>m e. double_of x = of_int m * pow2 e \<and> 2 ^ 52 \<le> m \<and> m \<le> 2 ^ 53
           \<and> \<bar>double_of x - x\<bar> \<le> pow2 e / 2"
proof -
  from double_of_bracket[OF assms] obtain e where
    b: "double_of x = of_int (round_half_even (x / pow2 e)) * pow2 e"
      "pow2 52 \<le> x / pow2 e" "x / pow2 e < pow2 53" by blast
  define m where "m = round_half_even (x / pow2 e)"
  have d: "double_of x = of_int m * pow2 e" by (simp add: b(1) m_def)
  have "(of_int (2 ^ 52) :: rat) \<le> x / pow2 e" using b(2) by (simp add: pow2_numeral)
  then have lo: "2 ^ 52 \<le> m" unfolding m_def by (rule round_half_even_mono(1))
  have "x / pow2 e \<le> (of_int (2 ^ 53) :: rat)" using b(3) by (simp add: pow2_numeral)
  then have hi: "m \<le> 2 ^ 53" unfolding m_def by (rule round_half_even_mono(2))
  have "\<bar>of_int m - x / pow2 e\<bar> \<le> 1 / 2"
    unfolding m_def by (rule round_half_even_near)
  then have "\<bar>of_int m - x / pow2 e\<bar> * pow2 e \<le> 1 / 2 * pow2 e"
    by (simp add: mult_right_mono)
  moreover have "\<bar>of_int m - x / pow2 e\<bar> * pow2 e = \<bar>of_int m * pow2 e - x\<bar>"
  proof -
    have "\<bar>of_int m - x / pow2 e\<bar> * pow2 e = \<bar>(of_int m - x / pow2 e) * pow2 e\<bar>"
      by (simp add: abs_mult abs_of_pos)
    also have "(of_int m - x / pow2 e) * pow2 e = of_int m * pow2 e - x"
      by (simp add: algebra_simps)
    finally show ?thesis .
  qed
  ultimately have "\<bar>double_of x - x\<bar> \<le> pow2 e / 2" by (simp add: d)
  with d lo hi show ?thesis by blast
qed

lemma double_of_minus: "double_of (- x) = - double_of x"
  by (simp add: double_of_def Let_def)

lemma double_of_pos: "0 < x \<Longrightarrow> 0 < double_of x"
proof -
  assume "0 < x"
  from double_of_nearest[OF this] obtain m e where
    "double_of x = of_int m * pow2 e" "2 ^ 52 \<le> m" by blast
  moreover from this have "0 < m" by (smt (verit) zero_less_power)
  ultimately show ?thesis by simp
qed

text \<open>Some sums of the source, as a check of the rounding.\<close>

lemma double_examples:
  "double_of (3 / 10) = 5404319552844595 / 2 ^ 54"
  "dadd (double_of (1 / 10)) (double_of (2 / 10)) = 5404319552844596 / 2 ^ 54"
  "double_of (14 / 10) < dadd (dadd (double_of (8 / 10)) (double_of (3 / 10))) (double_of (3 / 10))"
  "dadd (dadd (double_of (5 / 10)) (double_of (5 / 10))) (double_of (5 / 10)) = 3 / 2"
  "dadd (2 ^ 53) 1 = 2 ^ 53"
  "dadd (2 ^ 53 + 2) 1 = 2 ^ 53 + 4"
  by code_simp+

section \<open>Properties of the trie\<close>

lemma toLowerCase_Nil_iff: "toLowerCase w = [] \<longleftrightarrow> w = []"
  by (simp add: toLowerCase_def)

lemma entry_Nil: "entry n [] = (if isEndOfWord n then Some (node_value n) else None)"
  by (simp add: entry_def)

lemma entry_Cons: "entry n (c # cs) = (case map_of (children n) c of None \<Rightarrow> None | Some m \<Rightarrow> entry m cs)"
  by (simp add: entry_def split: option.splits)

lemma entry_new: "entry new_TrieNode p = None"
  by (cases p) (simp_all add: entry_Nil entry_Cons new_TrieNode_def)

lemma entry_insert_node:
  "entry (fst (insert_node n p w)) q =
     (if q = p then (case entry n p of None \<Rightarrow> Some (Some w) | Some v \<Rightarrow> Some v) else entry n q)"
proof (induction n p w arbitrary: q rule: insert_node.induct)
  case (1 ch e v word)
  then show ?case by (cases q) (auto simp: entry_Nil entry_Cons)
next
  case (2 ch e v c cs word)
  define ch1 where "ch1 = (if map_of ch c = None then AList.update c new_TrieNode ch else ch)"
  define child where "child = (case map_of ch1 c of Some n \<Rightarrow> n | None \<Rightarrow> new_TrieNode)"
  have IH: "\<And>q. entry (fst (insert_node child cs word)) q =
     (if q = cs then (case entry child cs of None \<Rightarrow> Some (Some word) | Some v \<Rightarrow> Some v)
      else entry child q)"
    using "2.IH"[OF ch1_def child_def] .
  have ins: "fst (insert_node (TrieNode ch e v) (c # cs) word)
      = TrieNode (AList.update c (fst (insert_node child cs word)) ch1) e v"
    by (simp add: ch1_def child_def split: prod.splits)
  have old: "entry (TrieNode ch e v) (c # ds) = entry child ds" if "map_of ch c \<noteq> None" for ds
    using that by (auto simp: entry_Cons ch1_def child_def)
  have new: "entry (TrieNode ch e v) (c # ds) = None \<and> entry child ds = None"
    if "map_of ch c = None" for ds
    using that by (auto simp: entry_Cons ch1_def child_def update_conv' entry_new)
  have other: "map_of ch1 d = map_of ch d" if "d \<noteq> c" for d
    using that by (auto simp: ch1_def update_conv')
  show ?case
  proof (cases q)
    case Nil
    then show ?thesis unfolding ins by (simp add: entry_Nil)
  next
    case (Cons d ds)
    show ?thesis
    proof (cases "d = c")
      case True
      have "entry (TrieNode (AList.update c (fst (insert_node child cs word)) ch1) e v) (c # ds)
          = entry (fst (insert_node child cs word)) ds"
        by (simp add: entry_Cons update_conv')
      then show ?thesis unfolding ins Cons True using IH[of ds] old new
        by (cases "map_of ch c = None") auto
    next
      case False
      then show ?thesis unfolding ins Cons
        by (simp add: entry_Cons update_conv' other)
    qed
  qed
qed


lemma entry_Trie_insert:
  "entry (root (Trie_insert t w)) q =
     (if w \<noteq> [] \<and> q = toLowerCase w
      then (case entry (root t) q of None \<Rightarrow> Some (Some w) | Some v \<Rightarrow> Some v)
      else entry (root t) q)"
  using entry_insert_node[of "root t" "toLowerCase w" w q]
  by (auto simp: Trie_insert_def split: prod.splits)

lemma entry_foldl_insert:
  "entry (root (foldl Trie_insert t ws)) q =
     (case entry (root t) q of
        Some v \<Rightarrow> Some v
      | None \<Rightarrow> map_option Some (find (\<lambda>w. w \<noteq> [] \<and> toLowerCase w = q) ws))"
proof (induction ws arbitrary: t)
  case Nil
  then show ?case by (simp split: option.splits)
next
  case (Cons w ws)
  show ?case
    by (simp add: Cons.IH entry_Trie_insert split: option.splits)
qed

lemma entry_inserted:
  "entry (root (inserted ws)) q = map_option Some (find (\<lambda>w. w \<noteq> [] \<and> toLowerCase w = q) ws)"
  by (simp add: inserted_def entry_foldl_insert new_Trie_def entry_new)

lemma Trie_search_entry:
  "Trie_search t w \<longleftrightarrow> w \<noteq> [] \<and> entry (root t) (toLowerCase w) \<noteq> None"
  by (auto simp: Trie_search_def entry_def split: option.splits)

lemma Trie_search_inserted:
  "Trie_search (inserted ws) q \<longleftrightarrow> q \<noteq> [] \<and> toLowerCase q \<in> toLowerCase ` set ws"
proof -
  have "find (\<lambda>w. w \<noteq> [] \<and> toLowerCase w = toLowerCase q) ws \<noteq> None
        \<longleftrightarrow> toLowerCase q \<in> toLowerCase ` set ws" if "q \<noteq> []"
  proof -
    have "x \<noteq> []" if "toLowerCase q = toLowerCase x" for x
      using that \<open>q \<noteq> []\<close> toLowerCase_Nil_iff by metis
    then show ?thesis
      unfolding find_None_iff image_iff by metis
  qed
  then show ?thesis
    by (auto simp: Trie_search_entry entry_inserted)
qed

lemma entry_unmark_node:
  "entry (unmark_node n p) q = (if q = p then None else entry n q)"
proof (induction n p arbitrary: q rule: unmark_node.induct)
  case (1 ch e v)
  then show ?case by (cases q) (simp_all add: entry_Nil entry_Cons)
next
  case (2 ch e v c cs)
  show ?case
  proof (cases "map_of ch c")
    case None
    then show ?thesis by (cases q) (auto simp: entry_Nil entry_Cons)
  next
    case (Some child)
    with "2.IH" show ?thesis
      by (cases q) (auto simp: entry_Nil entry_Cons update_conv')
  qed
qed

lemma entry_deleteHelper:
  "entry n p = None \<Longrightarrow>
     entry (fst (deleteHelper n p)) q = entry n q \<and>
     (snd (deleteHelper n p) \<longrightarrow> entry n q = None)"
proof (induction n p arbitrary: q rule: deleteHelper.induct)
  case (1 ch e v)
  then show ?case by (cases q) (auto simp: entry_Nil entry_Cons)
next
  case (2 ch e v c cs)
  show ?case
  proof (cases "map_of ch c")
    case None
    then show ?thesis by simp
  next
    case (Some child)
    from "2.prems" Some have none: "entry child cs = None"
      by (simp add: entry_Cons)
    note IH = "2.IH"[OF Some none]
    show ?thesis
    proof (cases "snd (deleteHelper child cs)")
      case True
      with IH have dead: "\<And>r. entry child r = None" by blast
      have eq: "deleteHelper (TrieNode ch e v) (c # cs)
          = (TrieNode (AList.delete c ch) e v, length (AList.delete c ch) = 0 \<and> \<not> e)"
        using Some True by (cases "deleteHelper child cs") (simp add: Let_def)
      show ?thesis
      proof (cases q)
        case Nil
        then show ?thesis unfolding eq by (auto simp: entry_Nil)
      next
        case (Cons d ds)
        have "map_of ch d = None" if "AList.delete c ch = []" "d \<noteq> c"
        proof -
          have "map_of (AList.delete c ch) d = map_of ch d"
            using that(2) by (simp add: delete_conv')
          with that(1) show ?thesis by simp
        qed
        then show ?thesis unfolding eq Cons using Some dead
          by (auto simp: entry_Cons delete_conv' split: option.splits)
      qed
    next
      case False
      have eq: "deleteHelper (TrieNode ch e v) (c # cs)
          = (TrieNode (AList.update c (fst (deleteHelper child cs)) ch) e v, False)"
        using Some False by (cases "deleteHelper child cs") simp
      show ?thesis
        unfolding eq using Some IH
        by (cases q) (auto simp: entry_Nil entry_Cons update_conv')
    qed
  qed
qed

lemma entry_Trie_delete:
  "snd (Trie_delete t w) \<Longrightarrow>
     entry (root (fst (Trie_delete t w))) q = (if q = toLowerCase w then None else entry (root t) q)"
proof -
  assume d: "snd (Trie_delete t w)"
  let ?p = "toLowerCase w"
  have none: "entry (unmark_node (root t) ?p) ?p = None"
    by (simp add: entry_unmark_node)
  from d have "root (fst (Trie_delete t w)) = fst (deleteHelper (unmark_node (root t) ?p) ?p)"
    by (auto simp: Trie_delete_def Let_def split: if_splits option.splits prod.splits)
  then show ?thesis
    using entry_deleteHelper[OF none, of q] by (simp add: entry_unmark_node)
qed

lemma Trie_delete_unchanged: "\<not> snd (Trie_delete t w) \<Longrightarrow> fst (Trie_delete t w) = t"
  by (auto simp: Trie_delete_def Let_def split: if_splits option.splits prod.splits)

lemma Trie_delete_result: "snd (Trie_delete t w) = Trie_search t w"
  by (auto simp: Trie_delete_def Trie_search_def Let_def split: if_splits option.splits prod.splits)

lemma str_startsWith_iff: "str_startsWith s p \<longleftrightarrow> (\<exists>r. s = p @ r)"
  by (induction s p rule: str_startsWith.induct) auto

lemma toLowerCase_append: "toLowerCase (a @ b) = toLowerCase a @ toLowerCase b"
  by (simp add: toLowerCase_def)













section \<open>Properties of the LRU cache\<close>

lemma linked_append: "linked f x (as @ bs) z \<longleftrightarrow> (\<exists>y. linked f x as y \<and> linked f y bs z)"
  by (induction as arbitrary: x) auto

lemma linked_upd: "u \<notin> set as \<Longrightarrow> linked (f(u := v)) x as y = linked f x as y"
  by (induction as arbitrary: x) auto

lemma nexts_upd_next:
  "p < length h \<Longrightarrow> nexts (h[p := (h ! p)\<lparr> lru_next := x \<rparr>]) = (nexts h)(p := x)"
  by (auto simp: nexts_def fun_eq_iff nth_list_update)

lemma prevs_upd_prev:
  "p < length h \<Longrightarrow> prevs (h[p := (h ! p)\<lparr> lru_prev := x \<rparr>]) = (prevs h)(p := x)"
  by (auto simp: prevs_def fun_eq_iff nth_list_update)

lemma nth_upd_field:
  "(\<And>n. f (g n) = f n) \<Longrightarrow> f (h[p := g (h ! p)] ! x) = f (h ! x)"
  by (cases "p < length h"; cases "x = p") (simp_all add: list_update_beyond)

lemma nth_upd_fields:
  "lru_next (h[p := (h ! p)\<lparr> lru_prev := a \<rparr>] ! x) = lru_next (h ! x)"
  "lru_next (h[p := (h ! p)\<lparr> lru_value := v \<rparr>] ! x) = lru_next (h ! x)"
  "lru_prev (h[p := (h ! p)\<lparr> lru_next := a \<rparr>] ! x) = lru_prev (h ! x)"
  "lru_prev (h[p := (h ! p)\<lparr> lru_value := v \<rparr>] ! x) = lru_prev (h ! x)"
  "lru_key (h[p := (h ! p)\<lparr> lru_next := a \<rparr>] ! x) = lru_key (h ! x)"
  "lru_key (h[p := (h ! p)\<lparr> lru_prev := a \<rparr>] ! x) = lru_key (h ! x)"
  "lru_key (h[p := (h ! p)\<lparr> lru_value := v \<rparr>] ! x) = lru_key (h ! x)"
  "lru_key (h[p := (h ! p)\<lparr> lru_prev := a, lru_next := b \<rparr>] ! x) = lru_key (h ! x)"
  "lru_value (h[p := (h ! p)\<lparr> lru_next := a \<rparr>] ! x) = lru_value (h ! x)"
  "lru_value (h[p := (h ! p)\<lparr> lru_prev := a \<rparr>] ! x) = lru_value (h ! x)"
  "lru_value (h[p := (h ! p)\<lparr> lru_prev := a, lru_next := b \<rparr>] ! x) = lru_value (h ! x)"
  by (rule nth_upd_field[where g = "\<lambda>n. n\<lparr> lru_prev := a \<rparr>"]
           nth_upd_field[where g = "\<lambda>n. n\<lparr> lru_next := a \<rparr>"]
           nth_upd_field[where g = "\<lambda>n. n\<lparr> lru_value := v \<rparr>"]
           nth_upd_field[where g = "\<lambda>n. n\<lparr> lru_prev := a, lru_next := b \<rparr>"], simp)+

lemma nexts_upd_prev: "nexts (h[p := (h ! p)\<lparr> lru_prev := x \<rparr>]) = nexts h"
  by (simp add: nexts_def nth_upd_fields)

lemma prevs_upd_next: "prevs (h[p := (h ! p)\<lparr> lru_next := x \<rparr>]) = prevs h"
  by (simp add: prevs_def nth_upd_fields)

lemma nexts_upd_value: "nexts (h[p := (h ! p)\<lparr> lru_value := x \<rparr>]) = nexts h"
  by (simp add: nexts_def nth_upd_fields)

lemma prevs_upd_value: "prevs (h[p := (h ! p)\<lparr> lru_value := x \<rparr>]) = prevs h"
  by (simp add: prevs_def nth_upd_fields)

text \<open>What \<open>removeNode\<close> leaves alone.\<close>

lemma removeNode_frame:
  "cache (removeNode c r) = cache c"
  "capacity (removeNode c r) = capacity c"
  "length (heap (removeNode c r)) = length (heap c)"
  "lru_key (heap (removeNode c r) ! x) = lru_key (heap c ! x)"
  "lru_value (heap (removeNode c r) ! x) = lru_value (heap c ! x)"
  by (auto simp: removeNode_def Let_def nth_upd_fields split: option.splits)

lemma addToHead_frame:
  "cache (addToHead c r) = cache c"
  "capacity (addToHead c r) = capacity c"
  "length (heap (addToHead c r)) = length (heap c)"
  "lru_key (heap (addToHead c r) ! x) = lru_key (heap c ! x)"
  "lru_value (heap (addToHead c r) ! x) = lru_value (heap c ! x)"
  by (auto simp: addToHead_def Let_def nth_upd_fields split: option.splits)

lemma linked_cong: "(\<And>r. r \<in> set rs \<Longrightarrow> f r = g r) \<Longrightarrow> linked f x rs y = linked g x rs y"
  by (induction rs arbitrary: x) auto

lemma next_after_unlink:
  "lru_next (h[p := (h ! p)\<lparr> lru_next := lru_next (h ! r) \<rparr>] ! r) = lru_next (h ! r)"
  by (cases "p < length h"; cases "p = r") (simp_all add: list_update_beyond)

lemma removeNode_alt:
  "removeNode c r =
     (let P = lru_prev (heap c ! r); N = lru_next (heap c ! r);
          c1 = (case P of
                  Some p \<Rightarrow> c\<lparr> heap := (heap c)[p := (heap c ! p)\<lparr> lru_next := N \<rparr>] \<rparr>
                | None \<Rightarrow> c\<lparr> head := N \<rparr>)
      in (case N of
            Some n \<Rightarrow> c1\<lparr> heap := (heap c1)[n := (heap c1 ! n)\<lparr> lru_prev := P \<rparr>] \<rparr>
          | None \<Rightarrow> c1\<lparr> tail := P \<rparr>))"
proof (cases "lru_prev (heap c ! r)")
  case None
  then show ?thesis
    by (simp add: removeNode_def Let_def split: option.splits)
next
  case (Some p)
  let ?h = "(heap c)[p := (heap c ! p)\<lparr> lru_next := lru_next (heap c ! r) \<rparr>]"
  have n: "lru_next (?h ! r) = lru_next (heap c ! r)"
    by (rule next_after_unlink)
  have p: "lru_prev (?h ! r) = lru_prev (heap c ! r)"
    by (simp add: nth_upd_fields)
  show ?thesis
    unfolding removeNode_def Let_def Some option.case
    by (simp add: n nth_upd_fields Some cong: option.case_cong)
qed

lemma removeNode_head_tail:
  "head (removeNode c r) = (case lru_prev (heap c ! r) of None \<Rightarrow> lru_next (heap c ! r) | Some p \<Rightarrow> head c)"
  "tail (removeNode c r) = (case lru_next (heap c ! r) of None \<Rightarrow> lru_prev (heap c ! r) | Some n \<Rightarrow> tail c)"
  by (auto simp: removeNode_alt Let_def split: option.splits)

lemma removeNode_next:
  "x < length (heap c) \<Longrightarrow>
   lru_next (heap (removeNode c r) ! x) =
     (if lru_prev (heap c ! r) = Some x then lru_next (heap c ! r) else lru_next (heap c ! x))"
  by (auto simp: removeNode_alt Let_def nth_list_update nth_upd_fields split: option.splits)

lemma removeNode_prev:
  "x < length (heap c) \<Longrightarrow>
   lru_prev (heap (removeNode c r) ! x) =
     (if lru_next (heap c ! r) = Some x then lru_prev (heap c ! r) else lru_prev (heap c ! x))"
  by (auto simp: removeNode_alt Let_def nth_list_update nth_upd_fields split: option.splits)

lemma addToHead_head_tail:
  "head (addToHead c r) = Some r"
  "tail (addToHead c r) = (if tail c = None then Some r else tail c)"
  by (auto simp: addToHead_def Let_def split: option.splits)

lemma addToHead_next:
  "x < length (heap c) \<Longrightarrow>
   lru_next (heap (addToHead c r) ! x) = (if x = r then head c else lru_next (heap c ! x))"
  by (auto simp: addToHead_def Let_def nth_list_update nth_upd_fields split: option.splits)

lemma addToHead_prev:
  "x < length (heap c) \<Longrightarrow>
   lru_prev (heap (addToHead c r) ! x) =
     (if head c = Some x then Some r else if x = r then None else lru_prev (heap c ! x))"
  by (auto simp: addToHead_def Let_def nth_list_update nth_upd_fields split: option.splits)

lemma removeNode_dll:
  assumes "dll c (xs @ r # ys)"
  shows "dll (removeNode c r) (xs @ ys)"
proof -
  let ?c = "removeNode c r"
  let ?nx = "nexts (heap c)" and ?pv = "prevs (heap c)"
  from assms have d: "distinct (xs @ r # ys)"
    and rng: "list_all (\<lambda>r. r < length (heap c)) (xs @ r # ys)"
    and fw: "linked ?nx (head c) xs (Some r)" "linked ?nx (?nx r) ys None"
    and bw: "linked ?pv (tail c) (rev ys) (Some r)" "linked ?pv (?pv r) (rev xs) None"
    by (auto simp: dll_def linked_append)
  from rng have rx: "\<And>x. x \<in> set xs \<Longrightarrow> x < length (heap c)"
    and ry: "\<And>x. x \<in> set ys \<Longrightarrow> x < length (heap c)"
    by (auto simp: list_all_iff)
  have pr: "lru_prev (heap c ! r) = (if xs = [] then None else Some (last xs))"
    using bw(2) by (cases xs rule: rev_cases) (auto simp: prevs_def)
  have nr: "lru_next (heap c ! r) = (if ys = [] then None else Some (hd ys))"
    using fw(2) by (cases ys) (auto simp: nexts_def)
  have nx: "nexts (heap ?c) x = (if xs \<noteq> [] \<and> x = last xs then lru_next (heap c ! r) else ?nx x)"
    if "x \<in> set xs \<or> x \<in> set ys" for x
    using that rx ry by (auto simp: nexts_def removeNode_next pr)
  have pv: "prevs (heap ?c) x = (if ys \<noteq> [] \<and> x = hd ys then lru_prev (heap c ! r) else ?pv x)"
    if "x \<in> set xs \<or> x \<in> set ys" for x
    using that rx ry by (auto simp: prevs_def removeNode_prev nr)
  have hd: "head ?c = (if xs = [] then lru_next (heap c ! r) else head c)"
    and tl: "tail ?c = (if ys = [] then lru_prev (heap c ! r) else tail c)"
    by (simp_all add: removeNode_head_tail pr nr)
  have fw': "linked (nexts (heap ?c)) (head ?c) (xs @ ys) None"
  proof (cases xs rule: rev_cases)
    case Nil
    have "linked (nexts (heap ?c)) (?nx r) ys None = linked ?nx (?nx r) ys None"
      by (rule linked_cong) (simp add: nx Nil)
    with fw(2) show ?thesis by (simp add: Nil hd nexts_def)
  next
    case (snoc xs' p)
    with d have pn: "p \<notin> set xs'" "p \<notin> set ys" by auto
    from fw(1) snoc have f1: "linked ?nx (head c) xs' (Some p)" by (auto simp: linked_append)
    have 1: "linked (nexts (heap ?c)) (head c) xs' (Some p) = linked ?nx (head c) xs' (Some p)"
      using pn by (intro linked_cong) (auto simp: nx snoc)
    have 2: "linked (nexts (heap ?c)) (?nx r) ys None = linked ?nx (?nx r) ys None"
      using pn by (intro linked_cong) (auto simp: nx snoc)
    have 3: "nexts (heap ?c) p = ?nx r" using nx[of p] by (simp add: snoc nexts_def)
    from 1 2 3 f1 fw(2) show ?thesis by (simp add: snoc hd linked_append)
  qed
  have bw': "linked (prevs (heap ?c)) (tail ?c) (rev (xs @ ys)) None"
  proof (cases ys)
    case Nil
    have "linked (prevs (heap ?c)) (?pv r) (rev xs) None = linked ?pv (?pv r) (rev xs) None"
      by (rule linked_cong) (simp add: pv Nil)
    with bw(2) show ?thesis by (simp add: Nil tl prevs_def)
  next
    case (Cons n ys')
    with d have nn: "n \<notin> set ys'" "n \<notin> set xs" by auto
    from bw(1) Cons have b1: "linked ?pv (tail c) (rev ys') (Some n)" by (auto simp: linked_append)
    have 1: "linked (prevs (heap ?c)) (tail c) (rev ys') (Some n) = linked ?pv (tail c) (rev ys') (Some n)"
      using nn by (intro linked_cong) (auto simp: pv Cons)
    have 2: "linked (prevs (heap ?c)) (?pv r) (rev xs) None = linked ?pv (?pv r) (rev xs) None"
      using nn by (intro linked_cong) (auto simp: pv Cons)
    have 3: "prevs (heap ?c) n = ?pv r" using pv[of n] by (simp add: Cons prevs_def)
    from 1 2 3 b1 bw(2) show ?thesis by (simp add: Cons tl linked_append)
  qed
  from d rng fw' bw' show ?thesis
    by (simp add: dll_def removeNode_frame)
qed

lemma addToHead_dll:
  assumes "dll c rs" and "r \<notin> set rs" and "r < length (heap c)"
  shows "dll (addToHead c r) (r # rs)"
proof -
  let ?c = "addToHead c r"
  let ?nx = "nexts (heap c)" and ?pv = "prevs (heap c)"
  from assms have d: "distinct rs"
    and rng: "list_all (\<lambda>r. r < length (heap c)) rs"
    and fw: "linked ?nx (head c) rs None"
    and bw: "linked ?pv (tail c) (rev rs) None"
    by (auto simp: dll_def)
  from rng have rr: "\<And>x. x \<in> set rs \<Longrightarrow> x < length (heap c)"
    by (auto simp: list_all_iff)
  have hd: "head c = (if rs = [] then None else Some (hd rs))"
    using fw by (cases rs) auto
  have tl: "tail c = (if rs = [] then None else Some (last rs))"
    using bw by (cases rs rule: rev_cases) auto
  have 1: "linked (nexts (heap ?c)) (head c) rs None = linked ?nx (head c) rs None"
    using assms(2) rr by (intro linked_cong) (auto simp: nexts_def addToHead_next)
  have 2: "nexts (heap ?c) r = head c"
    using assms(3) by (simp add: nexts_def addToHead_next)
  have fw': "linked (nexts (heap ?c)) (head ?c) (r # rs) None"
    using 1 2 fw by (simp add: addToHead_head_tail)
  have bw': "linked (prevs (heap ?c)) (tail ?c) (rev (r # rs)) None"
  proof (cases rs)
    case Nil
    then show ?thesis using assms(3)
      by (simp add: addToHead_head_tail tl prevs_def addToHead_prev hd)
  next
    case (Cons h rs')
    with d have hn: "h \<notin> set rs'" by simp
    from bw Cons have b1: "linked ?pv (tail c) (rev rs') (Some h)" by (auto simp: linked_append)
    have 3: "linked (prevs (heap ?c)) (tail c) (rev rs') (Some h) = linked ?pv (tail c) (rev rs') (Some h)"
      using hn assms(2) rr by (intro linked_cong) (auto simp: prevs_def addToHead_prev hd Cons)
    have 4: "prevs (heap ?c) h = Some r"
      using rr by (simp add: prevs_def addToHead_prev hd Cons)
    have 5: "prevs (heap ?c) r = None"
      using assms(2,3) by (simp add: prevs_def addToHead_prev hd Cons)
    from 3 4 5 b1 show ?thesis
      by (simp add: Cons addToHead_head_tail tl linked_append)
  qed
  from d rng assms(2,3) fw' bw' show ?thesis
    by (simp add: dll_def addToHead_frame)
qed

lemma remove1_split: "r \<notin> set xs \<Longrightarrow> remove1 r (xs @ r # ys) = xs @ ys"
  by (induction xs) auto

lemma remove1_last: "distinct xs \<Longrightarrow> xs \<noteq> [] \<Longrightarrow> remove1 (last xs) xs = butlast xs"
  by (induction xs) (auto simp: remove1_idem)

lemma map_remove1_inj:
  "inj_on f (set xs) \<Longrightarrow> x \<in> set xs \<Longrightarrow> map f (remove1 x xs) = remove1 (f x) (map f xs)"
  by (induction xs) (auto simp: inj_on_def)

lemma dll_removeNode:
  assumes "dll c rs" and "r \<in> set rs"
  shows "dll (removeNode c r) (remove1 r rs)"
proof -
  from assms(2) obtain xs ys where rs: "rs = xs @ r # ys" and "r \<notin> set xs"
    by (auto dest: split_list_first)
  with removeNode_dll[of c xs r ys] assms(1) show ?thesis
    by (simp add: remove1_split)
qed

lemma dll_head: "dll c rs \<Longrightarrow> head c = (if rs = [] then None else Some (hd rs))"
  by (cases rs) (auto simp: dll_def)

lemma dll_tail: "dll c rs \<Longrightarrow> tail c = (if rs = [] then None else Some (last rs))"
  by (cases rs rule: rev_cases) (auto simp: dll_def)

lemma dll_in_range: "dll c rs \<Longrightarrow> r \<in> set rs \<Longrightarrow> r < length (heap c)"
  by (auto simp: dll_def list_all_iff)

lemma moveToHead_frame:
  "cache (moveToHead c r) = cache c"
  "capacity (moveToHead c r) = capacity c"
  "length (heap (moveToHead c r)) = length (heap c)"
  "lru_key (heap (moveToHead c r) ! x) = lru_key (heap c ! x)"
  by (simp_all add: moveToHead_def addToHead_frame removeNode_frame)

lemma dll_moveToHead:
  assumes "dll c rs" and "r \<in> set rs"
  shows "dll (moveToHead c r) (r # remove1 r rs)"
proof (cases "head c = Some r")
  case True
  with dll_head[OF assms(1)] assms(2) have "rs = r # remove1 r rs"
    by (cases rs) (auto split: if_splits)
  with True assms(1) show ?thesis by (simp add: moveToHead_def)
next
  case False
  from assms have d: "distinct rs" by (simp add: dll_def)
  have 1: "dll (removeNode c r) (remove1 r rs)"
    by (rule dll_removeNode[OF assms])
  have 2: "r \<notin> set (remove1 r rs)" using d by simp
  have 3: "r < length (heap (removeNode c r))"
    using dll_in_range[OF assms] by (simp add: removeNode_frame)
  from addToHead_dll[OF 1 2 3] False show ?thesis by (simp add: moveToHead_def)
qed

lemma cache_ok_cong:
  assumes "cache_ok c rs" and "cache c' = cache c" and "set rs' = set rs"
    and "\<And>r. r \<in> set rs \<Longrightarrow> lru_key (heap c' ! r) = lru_key (heap c ! r)"
  shows "cache_ok c' rs'"
  using assms by (auto simp: cache_ok_def)

lemma cache_ok_inj:
  assumes "cache_ok c rs"
  shows "inj_on (\<lambda>r. lru_key (heap c ! r)) (set rs)"
proof (rule inj_onI)
  fix x y assume "x \<in> set rs" "y \<in> set rs" "lru_key (heap c ! x) = lru_key (heap c ! y)"
  with assms have "map_of (cache c) (lru_key (heap c ! y)) = Some x"
    and "map_of (cache c) (lru_key (heap c ! y)) = Some y"
    by (simp_all add: cache_ok_def)
  then show "x = y" by simp
qed

lemma cache_ok_length:
  assumes "cache_ok c rs" and "distinct rs"
  shows "length (cache c) = length rs"
proof -
  let ?f = "\<lambda>r. (lru_key (heap c ! r), r)"
  from assms(1) have d: "distinct (map fst (cache c))" by (simp add: cache_ok_def)
  then have dc: "distinct (cache c)" by (simp add: distinct_map)
  have "set (cache c) = ?f ` set rs"
  proof (intro set_eqI iffI)
    fix x assume "x \<in> set (cache c)"
    then have "map_of (cache c) (fst x) = Some (snd x)" using d by simp
    with assms(1) have "snd x \<in> set rs \<and> lru_key (heap c ! snd x) = fst x"
      by (simp add: cache_ok_def)
    then have "x = ?f (snd x)" "snd x \<in> set rs" by simp_all
    then show "x \<in> ?f ` set rs" by (rule image_eqI)
  next
    fix x assume "x \<in> ?f ` set rs"
    then obtain r where "r \<in> set rs" "x = ?f r" by auto
    with assms(1) have "map_of (cache c) (fst x) = Some (snd x)"
      unfolding cache_ok_def by simp
    then have "(fst x, snd x) \<in> set (cache c)" by (rule map_of_SomeD)
    then show "x \<in> set (cache c)" by simp
  qed
  moreover have "inj_on ?f (set rs)" by (simp add: inj_on_def)
  ultimately have "card (set (cache c)) = card (set rs)" by (simp add: card_image)
  with dc assms(2) show ?thesis by (simp add: distinct_card)
qed

lemma keys_loop_linked:
  "linked (nexts h) x rs None \<Longrightarrow>
   keys_loop h x acc = Some (acc @ map (\<lambda>r. lru_key (h ! r)) rs)"
proof (induction rs arbitrary: x acc)
  case Nil
  then show ?case by (simp add: keys_loop.simps)
next
  case (Cons r rs)
  then have x: "x = Some r" and p: "linked (nexts h) (lru_next (h ! r)) rs None"
    by (simp_all add: nexts_def)
  show ?case
    unfolding x by (subst keys_loop.simps) (simp add: Cons.IH[OF p])
qed

lemma lru_rel_facts:
  assumes "lru_rel c ks"
  shows "LRU_keys c = Some ks" and "length (cache c) = length ks" and "distinct ks"
    and "LRU_has c k \<longleftrightarrow> k \<in> set ks" and "set (map fst (cache c)) = set ks"
proof -
  from assms obtain rs where d: "dll c rs" and ok: "cache_ok c rs"
    and ks: "ks = map (\<lambda>r. lru_key (heap c ! r)) rs"
    by (auto simp: lru_rel_def)
  from d show "LRU_keys c = Some ks"
    using keys_loop_linked[of "heap c" "head c" rs "[]"] by (simp add: LRU_keys_def dll_def ks)
  from d have dr: "distinct rs" by (simp add: dll_def)
  from cache_ok_length[OF ok dr] show "length (cache c) = length ks" by (simp add: ks)
  from cache_ok_inj[OF ok] dr show "distinct ks" by (simp add: ks distinct_map)
  from ok show h: "LRU_has c k \<longleftrightarrow> k \<in> set ks" for k
    unfolding LRU_has_def cache_ok_def ks by (auto simp: image_iff)
  show "set (map fst (cache c)) = set ks"
  proof (intro set_eqI)
    fix x
    have "x \<in> set (map fst (cache c)) \<longleftrightarrow> map_of (cache c) x \<noteq> None"
      by (simp add: map_of_eq_None_iff)
    with h[of x] show "x \<in> set (map fst (cache c)) \<longleftrightarrow> x \<in> set ks"
      by (simp add: LRU_has_def)
  qed
qed

lemma lru_rel_lookup:
  assumes "lru_rel c ks"
  shows "k \<notin> set ks \<Longrightarrow> map_of (cache c) k = None"
    and "k \<in> set ks \<Longrightarrow> \<exists>r. map_of (cache c) k = Some r"
  using lru_rel_facts(4)[OF assms, of k] by (auto simp: LRU_has_def)

lemma dll_hits [simp]: "dll (c\<lparr> hits := x \<rparr>) rs = dll c rs"
  and dll_misses [simp]: "dll (c\<lparr> misses := y \<rparr>) rs = dll c rs"
  by (simp_all add: dll_def)

lemma cache_ok_hits [simp]: "cache_ok (c\<lparr> hits := x \<rparr>) rs = cache_ok c rs"
  and cache_ok_misses [simp]: "cache_ok (c\<lparr> misses := y \<rparr>) rs = cache_ok c rs"
  by (simp_all add: cache_ok_def)

lemma lru_rel_hits [simp]: "lru_rel (c\<lparr> hits := x \<rparr>) ks = lru_rel c ks"
  and lru_rel_misses [simp]: "lru_rel (c\<lparr> misses := y \<rparr>) ks = lru_rel c ks"
  by (simp_all add: lru_rel_def)

lemma lru_relI:
  "dll c rs \<Longrightarrow> cache_ok c rs \<Longrightarrow> ks = map (\<lambda>r. lru_key (heap c ! r)) rs \<Longrightarrow> lru_rel c ks"
  by (auto simp: lru_rel_def)

lemma lru_rel_moveToHead:
  assumes "lru_rel c ks" and "map_of (cache c) k = Some r"
  shows "lru_rel (moveToHead c r) (k # remove1 k ks)"
proof -
  let ?key = "\<lambda>r. lru_key (heap c ! r)"
  from assms(1) obtain rs where d: "dll c rs" and ok: "cache_ok c rs"
    and ks: "ks = map ?key rs"
    by (auto simp: lru_rel_def)
  from ok assms(2) have r: "r \<in> set rs" and k: "?key r = k"
    by (simp_all add: cache_ok_def)
  have 1: "dll (moveToHead c r) (r # remove1 r rs)"
    by (rule dll_moveToHead[OF d r])
  have s: "set (r # remove1 r rs) = set rs"
    using r d by (auto simp: dll_def)
  have 2: "cache_ok (moveToHead c r) (r # remove1 r rs)"
    by (rule cache_ok_cong[OF ok _ s]) (simp_all add: moveToHead_frame)
  have "map ?key (remove1 r rs) = remove1 k ks"
    using map_remove1_inj[OF cache_ok_inj[OF ok] r] by (simp add: ks k)
  then have 3: "k # remove1 k ks = map (\<lambda>x. lru_key (heap (moveToHead c r) ! x)) (r # remove1 r rs)"
    by (simp add: moveToHead_frame k)
  from 1 2 3 show ?thesis by (rule lru_relI)
qed

lemma lru_rel_get_hit:
  assumes "lru_rel c ks" and "k \<in> set ks"
  shows "lru_rel (fst (LRU_get c k)) (k # remove1 k ks)"
proof -
  from lru_rel_lookup(2)[OF assms] obtain r where r: "map_of (cache c) k = Some r" ..
  have "lru_rel (moveToHead (c\<lparr> hits := hits c + 1 \<rparr>) r) (k # remove1 k ks)"
    by (rule lru_rel_moveToHead) (simp_all add: assms r)
  then show ?thesis by (simp add: LRU_get_def r Let_def)
qed

lemma lru_rel_get_miss:
  assumes "lru_rel c ks" and "k \<notin> set ks"
  shows "lru_rel (fst (LRU_get c k)) ks"
  using assms lru_rel_lookup(1)[OF assms] by (simp add: LRU_get_def)

lemma lru_rel_set_value:
  assumes "lru_rel c ks"
  shows "lru_rel (c\<lparr> heap := (heap c)[r := (heap c ! r)\<lparr> lru_value := v \<rparr>] \<rparr>) ks"
  using assms
  by (simp add: lru_rel_def dll_def cache_ok_def nexts_upd_value prevs_upd_value nth_upd_fields)

lemma lru_rel_put_hit:
  assumes "lru_rel c ks" and "k \<in> set ks"
  shows "lru_rel (LRU_put c k v) (k # remove1 k ks)"
proof -
  from lru_rel_lookup(2)[OF assms] obtain r where r: "map_of (cache c) k = Some r" ..
  let ?c = "c\<lparr> heap := (heap c)[r := (heap c ! r)\<lparr> lru_value := v \<rparr>] \<rparr>"
  have "lru_rel (moveToHead ?c r) (k # remove1 k ks)"
    by (rule lru_rel_moveToHead) (simp_all add: lru_rel_set_value[OF assms(1)] r)
  then show ?thesis by (simp add: LRU_put_def r)
qed

lemma lru_rel_unlink:
  assumes "dll c rs" and "cache_ok c rs" and "r \<in> set rs"
  shows "lru_rel ((removeNode c r)\<lparr> cache := AList.delete (lru_key (heap c ! r)) (cache c) \<rparr>)
           (remove1 (lru_key (heap c ! r)) (map (\<lambda>x. lru_key (heap c ! x)) rs))"
proof -
  let ?key = "\<lambda>x. lru_key (heap c ! x)"
  let ?c = "(removeNode c r)\<lparr> cache := AList.delete (?key r) (cache c) \<rparr>"
  have h: "heap ?c = heap (removeNode c r)" "head ?c = head (removeNode c r)"
    "tail ?c = tail (removeNode c r)"
    by simp_all
  have "dll (removeNode c r) (remove1 r rs)"
    by (rule dll_removeNode[OF assms(1,3)])
  then have 1: "dll ?c (remove1 r rs)"
    unfolding dll_def h .
  from assms(1) have dr: "distinct rs" by (simp add: dll_def)
  note inj = cache_ok_inj[OF assms(2)]
  have 2: "cache_ok ?c (remove1 r rs)"
    unfolding cache_ok_def
  proof (intro conjI allI)
    show "distinct (map fst (cache ?c))"
      using assms(2) by (simp add: cache_ok_def distinct_delete)
  next
    fix k x
    have "map_of (cache ?c) k = Some x \<longleftrightarrow> k \<noteq> ?key r \<and> map_of (cache c) k = Some x"
      by (simp add: delete_conv')
    also have "\<dots> \<longleftrightarrow> k \<noteq> ?key r \<and> x \<in> set rs \<and> ?key x = k"
      using assms(2) by (simp add: cache_ok_def)
    also have "\<dots> \<longleftrightarrow> x \<in> set (remove1 r rs) \<and> ?key x = k"
      using inj assms(3) dr by (auto simp: inj_on_def)
    finally show "map_of (cache ?c) k = Some x \<longleftrightarrow>
        x \<in> set (remove1 r rs) \<and> lru_key (heap ?c ! x) = k"
      by (simp add: removeNode_frame)
  qed
  have 3: "remove1 (?key r) (map ?key rs) = map (\<lambda>x. lru_key (heap ?c ! x)) (remove1 r rs)"
    using map_remove1_inj[OF inj assms(3)] by (simp add: removeNode_frame)
  from 1 2 3 show ?thesis by (rule lru_relI)
qed

lemma lru_rel_delete:
  assumes "lru_rel c ks"
  shows "lru_rel (fst (LRU_delete c k)) (remove1 k ks)"
proof (cases "k \<in> set ks")
  case False
  with assms lru_rel_lookup(1)[OF assms False] show ?thesis
    by (simp add: LRU_delete_def remove1_idem)
next
  case True
  from assms obtain rs where d: "dll c rs" and ok: "cache_ok c rs"
    and ks: "ks = map (\<lambda>r. lru_key (heap c ! r)) rs"
    by (auto simp: lru_rel_def)
  from lru_rel_lookup(2)[OF assms True] obtain r where r: "map_of (cache c) k = Some r" ..
  with ok have rr: "r \<in> set rs" and k: "lru_key (heap c ! r) = k"
    by (simp_all add: cache_ok_def)
  from lru_rel_unlink[OF d ok rr] show ?thesis
    by (simp add: LRU_delete_def r Let_def removeNode_frame k ks)
qed

lemma lru_rel_removeTail:
  assumes "lru_rel c ks"
  shows "lru_rel (removeTail c) (butlast ks)"
proof -
  from assms obtain rs where d: "dll c rs" and ok: "cache_ok c rs"
    and ks: "ks = map (\<lambda>r. lru_key (heap c ! r)) rs"
    by (auto simp: lru_rel_def)
  show ?thesis
  proof (cases "rs = []")
    case True
    with dll_tail[OF d] assms ks show ?thesis by (simp add: removeTail_def)
  next
    case False
    with dll_tail[OF d] have t: "tail c = Some (last rs)" by simp
    from False have l: "last rs \<in> set rs" by simp
    have dk: "distinct ks" by (rule lru_rel_facts(3)[OF assms])
    have "remove1 (lru_key (heap c ! last rs)) ks = butlast ks"
      using remove1_last[OF dk] False by (simp add: ks last_map)
    with lru_rel_unlink[OF d ok l] show ?thesis
      by (simp add: removeTail_def t Let_def removeNode_frame ks)
  qed
qed

lemma lru_rel_put_new:
  assumes "lru_rel c ks" and "k \<notin> set ks"
  shows "lru_rel (LRU_put c k v)
           (if int (length ks) + 1 > capacity c then butlast (k # ks) else k # ks)"
proof -
  let ?key = "\<lambda>r. lru_key (heap c ! r)"
  from assms(1) obtain rs where d: "dll c rs" and ok: "cache_ok c rs"
    and ks: "ks = map ?key rs"
    by (auto simp: lru_rel_def)
  note none = lru_rel_lookup(1)[OF assms]
  let ?r = "length (heap c)"
  let ?c1 = "c\<lparr> heap := heap c @ [new_LRUNode k v], cache := AList.update k ?r (cache c) \<rparr>"
  let ?c2 = "addToHead ?c1 ?r"
  from d have rng: "\<And>x. x \<in> set rs \<Longrightarrow> x < ?r" by (auto simp: dll_def list_all_iff)
  then have fresh: "?r \<notin> set rs" by auto
  have "linked (nexts (heap ?c1)) (head c) rs None = linked (nexts (heap c)) (head c) rs None"
    using rng by (intro linked_cong) (simp add: nexts_def nth_append)
  moreover have "linked (prevs (heap ?c1)) (tail c) (rev rs) None
      = linked (prevs (heap c)) (tail c) (rev rs) None"
    using rng by (intro linked_cong) (simp add: prevs_def nth_append)
  ultimately have d1: "dll ?c1 rs"
    using d by (auto simp: dll_def list_all_iff)
  have d2: "dll ?c2 (?r # rs)"
    by (rule addToHead_dll[OF d1 fresh]) simp
  have key2: "lru_key (heap ?c2 ! x) = (if x = ?r then k else ?key x)" if "x \<le> ?r" for x
    using that by (simp add: addToHead_frame nth_append new_LRUNode_def)
  have ok2: "cache_ok ?c2 (?r # rs)"
    unfolding cache_ok_def
  proof (intro conjI allI)
    show "distinct (map fst (cache ?c2))"
      using ok by (simp add: cache_ok_def addToHead_frame distinct_update)
  next
    fix k' x
    have "map_of (cache ?c2) k' = Some x \<longleftrightarrow>
        (if k' = k then x = ?r else map_of (cache c) k' = Some x)"
      by (auto simp: addToHead_frame update_conv')
    also have "\<dots> \<longleftrightarrow> (if k' = k then x = ?r else x \<in> set rs \<and> ?key x = k')"
      using ok by (simp add: cache_ok_def)
    also have "\<dots> \<longleftrightarrow> x \<in> set (?r # rs) \<and> lru_key (heap ?c2 ! x) = k'"
    proof (cases "x \<le> ?r")
      case True
      with assms(2) rng show ?thesis unfolding key2[OF True] by (auto simp: ks)
    next
      case False
      have "x \<notin> set rs" using rng[of x] False by auto
      with False show ?thesis by auto
    qed
    finally show "map_of (cache ?c2) k' = Some x \<longleftrightarrow>
        x \<in> set (?r # rs) \<and> lru_key (heap ?c2 ! x) = k'" .
  qed
  have "map (\<lambda>x. lru_key (heap ?c2 ! x)) (?r # rs) = k # ks"
    using rng fresh by (auto simp: key2 ks less_imp_le)
  with d2 ok2 have rel2: "lru_rel ?c2 (k # ks)"
    by (intro lru_relI[of _ "?r # rs"]) simp_all
  have len: "length (cache ?c2) = length ks + 1"
    using lru_rel_facts(2)[OF rel2] by simp
  have cap: "capacity ?c2 = capacity c"
    by (simp add: addToHead_frame)
  have put: "LRU_put c k v = (if int (length ks) + 1 > capacity c then removeTail ?c2 else ?c2)"
    using none len cap by (simp add: LRU_put_def Let_def)
  show ?thesis
    unfolding put using rel2 lru_rel_removeTail[OF rel2] by simp
qed

lemma lru_rel_clear: "lru_rel (LRU_clear c) []"
  by (simp add: lru_rel_def dll_def cache_ok_def LRU_clear_def)

lemma lru_rel_new: "LRUCache_new cap = Inr c \<Longrightarrow> lru_rel c [] \<and> capacity c = cap \<and> 0 < cap"
  by (auto simp: LRUCache_new_def lru_rel_def dll_def cache_ok_def split: if_splits)

lemma capacity_steps:
  "capacity (fst (LRU_get c k)) = capacity c"
  "capacity (LRU_put c k v) = capacity c"
  "capacity (fst (LRU_delete c k)) = capacity c"
  "capacity (LRU_clear c) = capacity c"
  by (auto simp: LRU_get_def LRU_put_def LRU_delete_def LRU_clear_def Let_def removeTail_def
        moveToHead_frame addToHead_frame removeNode_frame split: option.splits)

lemma lru_rel_step:
  assumes "lru_rel c ks"
  shows "\<exists>ks'. lru_rel (lru_step c op) ks'"
proof (cases op)
  case (Get k)
  with lru_rel_get_hit[OF assms, of k] lru_rel_get_miss[OF assms, of k] show ?thesis
    by (cases "k \<in> set ks") auto
next
  case (Put k v)
  with lru_rel_put_hit[OF assms, of k v] lru_rel_put_new[OF assms, of k v] show ?thesis
    by (cases "k \<in> set ks") auto
next
  case (Has k)
  with assms show ?thesis by auto
next
  case (Delete k)
  with lru_rel_delete[OF assms, of k] show ?thesis by auto
next
  case Clear
  with lru_rel_clear[of c] show ?thesis by auto
qed

lemma lru_rel_run:
  "lru_rel c ks \<Longrightarrow> \<exists>ks'. lru_rel (lru_run c ops) ks'"
proof (induction ops arbitrary: c ks)
  case Nil
  then show ?case by (auto simp: lru_run_def)
next
  case (Cons op ops)
  from lru_rel_step[OF Cons.prems, of op] obtain ks1 where "lru_rel (lru_step c op) ks1" ..
  from Cons.IH[OF this] show ?case by (simp add: lru_run_def)
qed

lemma lru_rel_puts:
  "lru_rel c ks \<Longrightarrow> distinct (map fst kvs) \<Longrightarrow> set (map fst kvs) \<inter> set ks = {} \<Longrightarrow>
   int (length ks + length kvs) \<le> capacity c \<Longrightarrow>
   lru_rel (lru_run c (map (\<lambda>(k, v). Put k v) kvs)) (rev (map fst kvs) @ ks)
   \<and> capacity (lru_run c (map (\<lambda>(k, v). Put k v) kvs)) = capacity c"
proof (induction kvs arbitrary: c ks)
  case Nil
  then show ?case by (simp add: lru_run_def)
next
  case (Cons kv kvs)
  obtain k v where kv: "kv = (k, v)" by (cases kv)
  from Cons.prems kv have k: "k \<notin> set ks" by auto
  from Cons.prems have "\<not> int (length ks) + 1 > capacity c" by simp
  with lru_rel_put_new[OF Cons.prems(1) k, of v]
  have 1: "lru_rel (LRU_put c k v) (k # ks)" by simp
  have 2: "capacity (LRU_put c k v) = capacity c" by (rule capacity_steps)
  from Cons.prems kv have 3: "distinct (map fst kvs)" "set (map fst kvs) \<inter> set (k # ks) = {}"
    "int (length (k # ks) + length kvs) \<le> capacity (LRU_put c k v)"
    by (auto simp: 2)
  from Cons.IH[OF 1 3] show ?case by (simp add: kv lru_run_def 2)
qed

lemma LRU_get_None: "snd (LRU_get c k) = None \<longleftrightarrow> \<not> LRU_has c k"
  by (auto simp: LRU_get_def LRU_has_def Let_def split: option.splits)

lemma lru_rel_holds: "lru_rel c ks \<Longrightarrow> cache_holds c ks"
  unfolding cache_holds_def LRU_get_None
  by (simp add: lru_rel_facts LRU_size_def)

section \<open>Properties of ingestion, search and the answer service\<close>

lemma map_of_foldl_update:
  "map_of (foldl (\<lambda>m a. AList.update (k a) a m) m0 xs) x \<noteq> None
     \<longleftrightarrow> map_of m0 x \<noteq> None \<or> x \<in> k ` set xs"
  by (induction xs arbitrary: m0) (auto simp: update_conv')

lemma ingestCase_indexedCases:
  "\<exists>kws. indexedCases (ingestCase s c) =
     AList.update (case_id c)
       \<lparr> ic_case = c, ic_keywords = kws,
         artifact_map = foldl (\<lambda>m a. AList.update (artifact_id a) a m) [] (artifacts c),
         finding_map = foldl (\<lambda>m f. AList.update (finding_id f) f m) [] (findings c),
         tool_names = foldl (\<lambda>ns t. set_add (tool_name t) ns) [] (tools_used c) \<rparr>
       (indexedCases s)"
  by (auto simp: ingestCase_def Let_def split: prod.splits)

lemma ledger_ok_ingestCase:
  assumes "ledger_ok s"
  shows "ledger_ok (ingestCase s c)"
proof -
  from ingestCase_indexedCases[of s c] obtain kws where
    eq: "indexedCases (ingestCase s c) =
     AList.update (case_id c)
       \<lparr> ic_case = c, ic_keywords = kws,
         artifact_map = foldl (\<lambda>m a. AList.update (artifact_id a) a m) [] (artifacts c),
         finding_map = foldl (\<lambda>m f. AList.update (finding_id f) f m) [] (findings c),
         tool_names = foldl (\<lambda>ns t. set_add (tool_name t) ns) [] (tools_used c) \<rparr>
       (indexedCases s)" ..
  show ?thesis
    unfolding ledger_ok_def eq
  proof (intro allI impI)
    fix cid ic
    assume m: "map_of (AList.update (case_id c)
       \<lparr> ic_case = c, ic_keywords = kws,
         artifact_map = foldl (\<lambda>m a. AList.update (artifact_id a) a m) [] (artifacts c),
         finding_map = foldl (\<lambda>m f. AList.update (finding_id f) f m) [] (findings c),
         tool_names = foldl (\<lambda>ns t. set_add (tool_name t) ns) [] (tools_used c) \<rparr>
       (indexedCases s)) cid = Some ic"
    show "case_id (ic_case ic) = cid \<and>
        (\<forall>a. map_of (artifact_map ic) a \<noteq> None \<longleftrightarrow> a \<in> artifact_id ` set (artifacts (ic_case ic))) \<and>
        (\<forall>f. map_of (finding_map ic) f \<noteq> None \<longleftrightarrow> f \<in> finding_id ` set (findings (ic_case ic)))"
    proof (cases "cid = case_id c")
      case True
      with m have "ic = \<lparr> ic_case = c, ic_keywords = kws,
         artifact_map = foldl (\<lambda>m a. AList.update (artifact_id a) a m) [] (artifacts c),
         finding_map = foldl (\<lambda>m f. AList.update (finding_id f) f m) [] (findings c),
         tool_names = foldl (\<lambda>ns t. set_add (tool_name t) ns) [] (tools_used c) \<rparr>"
        by (simp add: update_conv')
      then show ?thesis
        using True map_of_foldl_update[where k = artifact_id and ?m0.0 = "[]" and xs = "artifacts c"]
          map_of_foldl_update[where k = finding_id and ?m0.0 = "[]" and xs = "findings c"]
        by simp
    next
      case False
      with m have "map_of (indexedCases s) cid = Some ic" by (simp add: update_conv')
      with assms show ?thesis unfolding ledger_ok_def by blast
    qed
  qed
qed

lemma ledger_ok_new: "ledger_ok new_CaseStudyIngestionService"
  by (simp add: ledger_ok_def new_CaseStudyIngestionService_def)

lemma ledger_ok_ingestCases: "ledger_ok s \<Longrightarrow> ledger_ok (ingestCases s cs)"
  unfolding ingestCases_def by (induction cs arbitrary: s) (simp_all add: ledger_ok_ingestCase)

lemma in_getAllCaseIds: "cid \<in> set (getAllCaseIds s) \<longleftrightarrow> map_of (indexedCases s) cid \<noteq> None"
  by (simp add: getAllCaseIds_def map_of_eq_None_iff)

lemma validateCitation_ledger:
  assumes "ledger_ok s"
  shows "validateCitation s c =
     (case split_on CHR '':'' c of
        [cid] \<Rightarrow> cid \<in> set (getAllCaseIds s)
      | [cid, item] \<Rightarrow>
          (case getCaseById s cid of
             None \<Rightarrow> False
           | Some cse \<Rightarrow> item \<in> artifact_id ` set (artifacts cse) \<or> item \<in> finding_id ` set (findings cse))
      | _ \<Rightarrow> False)"
proof -
  have "map_of (artifact_map ic) item \<noteq> None \<or> map_of (finding_map ic) item \<noteq> None \<longleftrightarrow>
      item \<in> artifact_id ` set (artifacts (ic_case ic)) \<or> item \<in> finding_id ` set (findings (ic_case ic))"
    if "map_of (indexedCases s) cid = Some ic" for cid ic item
    using assms that unfolding ledger_ok_def by blast
  then show ?thesis
    by (auto simp: validateCitation_def in_getAllCaseIds getCaseById_def
          split: list.splits option.splits)
qed

lemma generateFollowUps_length: "generateFollowUps m cases = Inr fs \<Longrightarrow> length fs = 3"
  by (auto simp: generateFollowUps_def split: PromptMode.splits list.splits)

lemma processQuery_refusal:
  "\<not> isForensicQuery q \<Longrightarrow>
   processQuery svc q =
     Inr \<lparr> resp_query = q, resp_mode = direct_qa, answer = NON_FORENSIC, citations = [],
           resp_confidence = 0,
           follow_up_suggestions =
             [''Show me a case study'', ''Explain memory forensics'', ''How to investigate ransomware?''],
           related_topics = None \<rparr>"
  by (simp add: processQuery_def)

lemma processQuery_zero_match:
  "isForensicQuery q \<Longrightarrow> search (ingestionService svc) q 3 = Inr [] \<Longrightarrow>
   processQuery svc q =
     Inr \<lparr> resp_query = q, resp_mode = detectPromptMode q,
           answer = js_replace INSUFFICIENT_CONTEXT ''{{available_cases}}''
                      (js_join nl (map (\<lambda>i. bullet @ '' '' @ i) (getAllCaseIds (ingestionService svc)))),
           citations = [], resp_confidence = 0,
           follow_up_suggestions =
             [''Tell me about ransomware-investigation'',
              ''What artifacts are in insider-data-theft case?'',
              ''List all case studies''],
           related_topics = None \<rparr>"
  by (simp add: processQuery_def Let_def)

lemma processQuery_follow_ups_length:
  assumes "processQuery svc q = Inr r"
  shows "length (follow_up_suggestions r) = 3"
proof (cases "isForensicQuery q")
  case False
  with assms show ?thesis by (auto simp: processQuery_refusal)
next
  case True
  show ?thesis
  proof (cases "search (ingestionService svc) q 3")
    case (Inl e)
    with assms True show ?thesis by (simp add: processQuery_def Let_def)
  next
    case (Inr rs)
    show ?thesis
    proof (cases "rs = []")
      case True
      with assms \<open>isForensicQuery q\<close> Inr show ?thesis
        by (auto simp: processQuery_zero_match)
    next
      case False
      let ?cases = "List.map_filter (\<lambda>r. map_of (enhancedCases svc) (sr_case_id r)) rs"
      from assms \<open>isForensicQuery q\<close> Inr False
      obtain fs where "generateFollowUps (detectPromptMode q) ?cases = Inr fs"
        and "follow_up_suggestions r = fs"
        by (auto simp: processQuery_def Let_def split: sum.splits)
      with generateFollowUps_length show ?thesis by simp
    qed
  qed
qed

lemma str_includes_iff: "str_includes s sub \<longleftrightarrow> (\<exists>a b. s = a @ sub @ b)"
proof (induction s)
  case Nil
  then show ?case by auto
next
  case (Cons c cs)
  have "(\<exists>a b. c # cs = a @ sub @ b) \<longleftrightarrow> (\<exists>r. c # cs = sub @ r) \<or> (\<exists>a b. cs = a @ sub @ b)"
  proof
    assume "\<exists>a b. c # cs = a @ sub @ b"
    then obtain a b where ab: "c # cs = a @ sub @ b" by blast
    show "(\<exists>r. c # cs = sub @ r) \<or> (\<exists>a b. cs = a @ sub @ b)"
    proof (cases a)
      case Nil
      with ab show ?thesis by auto
    next
      case (Cons x a')
      with ab have "cs = a' @ sub @ b" by simp
      then show ?thesis by blast
    qed
  next
    assume "(\<exists>r. c # cs = sub @ r) \<or> (\<exists>a b. cs = a @ sub @ b)"
    then show "\<exists>a b. c # cs = a @ sub @ b"
    proof
      assume "\<exists>r. c # cs = sub @ r"
      then obtain r where "c # cs = [] @ sub @ r" by auto
      then show ?thesis by blast
    next
      assume "\<exists>a b. cs = a @ sub @ b"
      then obtain a b where "c # cs = (c # a) @ sub @ b" by auto
      then show ?thesis by blast
    qed
  qed
  with Cons.IH show ?case by (simp add: str_startsWith_iff)
qed

lemma find_sub_Some: "find_sub s pat = Some (f, b) \<Longrightarrow> s = f @ pat @ b"
proof (induction s arbitrary: f)
  case Nil
  then show ?case by (auto split: if_splits)
next
  case (Cons c cs)
  show ?case
  proof (cases "str_startsWith (c # cs) pat")
    case True
    then obtain r where r: "c # cs = pat @ r" by (auto simp: str_startsWith_iff)
    from True Cons.prems have "f = []" "b = drop (length pat) (c # cs)" by simp_all
    with r show ?thesis by simp
  next
    case False
    with Cons.prems obtain f' where "find_sub cs pat = Some (f', b)" "f = c # f'"
      by (auto split: prod.splits)
    with Cons.IH[of f'] show ?thesis by simp
  qed
qed

lemma substitution_plain: "CHR ''$'' \<notin> set r \<Longrightarrow> substitution m f b r = r"
  by (induction m f b r rule: substitution.induct) auto

lemma js_join_includes: "x \<in> set xs \<Longrightarrow> \<exists>a b. js_join sep xs = a @ x @ b"
proof (induction sep xs rule: js_join.induct)
  case (1 sep)
  then show ?case by simp
next
  case (2 sep y)
  then have "js_join sep [y] = [] @ x @ []" by simp
  then show ?case by blast
next
  case (3 sep y z zs)
  show ?case
  proof (cases "x = y")
    case True
    then have "js_join sep (y # z # zs) = [] @ x @ (sep @ js_join sep (z # zs))" by simp
    then show ?thesis by blast
  next
    case False
    with "3.prems" have "x \<in> set (z # zs)" by simp
    from "3.IH"[OF this] obtain a b where "js_join sep (z # zs) = a @ x @ b" by blast
    then have "js_join sep (y # z # zs) = (y @ sep @ a) @ x @ b" by simp
    then show ?thesis by blast
  qed
qed

lemma template_has_placeholder: "find_sub INSUFFICIENT_CONTEXT ''{{available_cases}}'' \<noteq> None"
  by code_simp

lemma substitution_Cons_plain:
  "v \<noteq> CHR ''$'' \<Longrightarrow> substitution m f b (v # r) = v # substitution m f b r"
  by (cases r) auto

lemma substitution_append:
  "a = [] \<or> last a \<noteq> CHR ''$'' \<Longrightarrow>
   substitution m f b (a @ r) = substitution m f b a @ substitution m f b r"
proof (induction m f b a rule: substitution.induct)
  case (1 matched fr bk c d rest)
  then show ?case by (auto split: if_splits)
qed (auto simp: substitution_Cons_plain)

lemma zero_match_answer_lists_id:
  assumes "i \<in> set ids" and "CHR ''$'' \<notin> set i"
  shows "str_includes
           (js_replace INSUFFICIENT_CONTEXT ''{{available_cases}}''
              (js_join nl (map (\<lambda>i. bullet @ '' '' @ i) ids))) i"
proof -
  let ?pat = "''{{available_cases}}''"
  let ?repl = "js_join nl (map (\<lambda>i. bullet @ '' '' @ i) ids)"
  from template_has_placeholder obtain f b where
    fs: "find_sub INSUFFICIENT_CONTEXT ?pat = Some (f, b)" by auto
  from assms(1) have "bullet @ '' '' @ i \<in> set (map (\<lambda>i. bullet @ '' '' @ i) ids)" by simp
  from js_join_includes[OF this, of nl] obtain a c where
    "?repl = a @ (bullet @ '' '' @ i) @ c" by blast
  then have repl: "?repl = (a @ bullet @ '' '') @ (i @ c)" by simp
  have 1: "substitution ?pat f b ((a @ bullet @ '' '') @ (i @ c))
      = substitution ?pat f b (a @ bullet @ '' '') @ substitution ?pat f b (i @ c)"
    by (rule substitution_append) simp
  have "i = [] \<or> last i \<noteq> CHR ''$''"
    using assms(2) by (cases i rule: rev_cases) auto
  then have 2: "substitution ?pat f b (i @ c) = substitution ?pat f b i @ substitution ?pat f b c"
    by (rule substitution_append)
  have 3: "substitution ?pat f b i = i"
    using assms(2) by (rule substitution_plain)
  have "substitution ?pat f b ?repl
      = substitution ?pat f b (a @ bullet @ '' '') @ i @ substitution ?pat f b c"
    by (simp only: repl 1 2 3)
  then have "js_replace INSUFFICIENT_CONTEXT ?pat ?repl
      = (f @ substitution ?pat f b (a @ bullet @ '' '')) @ i @ (substitution ?pat f b c @ b)"
    by (simp add: js_replace_def fs)
  then show ?thesis unfolding str_includes_iff by blast
qed
section \<open>The claims about the trie\<close>




text \<open>
  C7, as the code has it. After the words \<open>ws\<close> are inserted, \<open>exists(q)\<close> is true for every
  casing \<open>q\<close> of every non-empty inserted word (\<open>insert\<close> ignores the empty word);
  \<open>delete(w)\<close> returns true exactly when \<open>w\<close> is not empty and some casing of it was
  inserted; and after a \<open>delete(w)\<close> that returned true, \<open>exists(w)\<close> is false.
\<close>

theorem Trie_insert_search_delete:
  "(w \<in> set ws \<longrightarrow> w \<noteq> [] \<longrightarrow> toLowerCase q = toLowerCase w \<longrightarrow> Trie_search (inserted ws) q)
   \<and> (snd (Trie_delete (inserted ws) w) \<longleftrightarrow> w \<noteq> [] \<and> toLowerCase w \<in> toLowerCase ` set ws)
   \<and> (snd (Trie_delete (inserted ws) w) \<longrightarrow> \<not> Trie_search (fst (Trie_delete (inserted ws) w)) w)"
proof (intro conjI impI)
  assume "w \<in> set ws" "w \<noteq> []" "toLowerCase q = toLowerCase w"
  then show "Trie_search (inserted ws) q"
    by (metis Trie_search_inserted imageI toLowerCase_Nil_iff)
next
  show "snd (Trie_delete (inserted ws) w) \<longleftrightarrow> w \<noteq> [] \<and> toLowerCase w \<in> toLowerCase ` set ws"
    by (simp add: Trie_delete_result Trie_search_inserted)
next
  assume d: "snd (Trie_delete (inserted ws) w)"
  show "\<not> Trie_search (fst (Trie_delete (inserted ws) w)) w"
    by (simp add: Trie_search_entry entry_Trie_delete[OF d])
qed

theorem Trie_insert_search_delete_witness:
  "Trie_search (inserted [''Autopsy'', ''Wireshark'']) ''AUTOPSY''
   \<and> snd (Trie_delete (inserted [''Autopsy'', ''Wireshark'']) ''Autopsy'')
   \<and> \<not> Trie_search (fst (Trie_delete (inserted [''Autopsy'', ''Wireshark'']) ''Autopsy'')) ''Autopsy''"
proof -
  let ?ws = "[''Autopsy'', ''Wireshark'']"
  note spec = Trie_insert_search_delete[of "''Autopsy''" ?ws "''AUTOPSY''"]
  have m: "''Autopsy'' \<in> set ?ws" and n: "''Autopsy'' \<noteq> []" by simp_all
  have l: "toLowerCase ''AUTOPSY'' = toLowerCase ''Autopsy''" by code_simp
  from m have i: "toLowerCase ''Autopsy'' \<in> toLowerCase ` set ?ws" by (rule imageI)
  from spec m n l have 1: "Trie_search (inserted ?ws) ''AUTOPSY''" by blast
  from spec n i have 2: "snd (Trie_delete (inserted ?ws) ''Autopsy'')" by blast
  from spec 2 have 3: "\<not> Trie_search (fst (Trie_delete (inserted ?ws) ''Autopsy'')) ''Autopsy''"
    by blast
  from 1 2 3 show ?thesis by blast
qed

theorem Trie_search_empty_word_counterexample:
  "[] \<in> set [[], ''autopsy''] \<and> \<not> Trie_search (inserted [[], ''autopsy'']) []
   \<and> \<not> snd (Trie_delete (inserted [[], ''autopsy'']) [])"
  by code_simp

text \<open>
  C10. Deleting \<open>w\<close> leaves the membership of every other word as it was: for every trie
  and every \<open>v\<close> whose lower-case form differs from that of \<open>w\<close>, \<open>exists(v)\<close> returns after
  \<open>delete(w)\<close> what it returned before, whether or not \<open>v\<close> shares a path with \<open>w\<close>.
\<close>

theorem Trie_delete_frame:
  "toLowerCase v \<noteq> toLowerCase w \<Longrightarrow>
   Trie_search (fst (Trie_delete t w)) v = Trie_search t v"
proof (cases "snd (Trie_delete t w)")
  case True
  assume "toLowerCase v \<noteq> toLowerCase w"
  then show ?thesis
    by (simp add: Trie_search_entry entry_Trie_delete[OF True])
next
  case False
  then show ?thesis by (simp add: Trie_delete_unchanged)
qed

theorem Trie_delete_frame_witness:
  "toLowerCase ''automate'' \<noteq> toLowerCase ''Autopsy''
   \<and> snd (Trie_delete (inserted [''autopsy'', ''automate'']) ''Autopsy'')
   \<and> Trie_search (fst (Trie_delete (inserted [''autopsy'', ''automate'']) ''Autopsy'')) ''automate''"
proof -
  have h: "toLowerCase ''automate'' \<noteq> toLowerCase ''Autopsy''" by code_simp
  have d: "snd (Trie_delete (inserted [''autopsy'', ''automate'']) ''Autopsy'')" by code_simp
  have b: "Trie_search (inserted [''autopsy'', ''automate'']) ''automate''" by code_simp
  have "Trie_search (fst (Trie_delete (inserted [''autopsy'', ''automate'']) ''Autopsy'')) ''automate''
      = Trie_search (inserted [''autopsy'', ''automate'']) ''automate''"
    by (rule Trie_delete_frame[OF h])
  with h d b show ?thesis by simp
qed

section \<open>The claims about the LRU cache\<close>

text \<open>
  C6, as the code has it. Take a cache of capacity \<open>N \<ge> 1\<close> and put \<open>N\<close> distinct keys,
  \<open>k1\<close> first and then those of \<open>rest\<close>; the cache then holds them all, most recent first.
  Putting one more new key \<open>k'\<close> evicts \<open>k1\<close>, the least recently touched key, and no other:
  afterwards \<open>has\<close> and \<open>get\<close> find \<open>k'\<close> and the keys of \<open>rest\<close> and do not find \<open>k1\<close>, and
  the size is \<open>N\<close>. A \<open>get\<close> of \<open>k1\<close> before that last put changes the evicted key to the next
  least recent one (the first key of \<open>rest\<close>) when \<open>N \<ge> 2\<close>; a \<open>get\<close> of any other existing
  key, and any \<open>get\<close> when \<open>N = 1\<close>, leaves \<open>k1\<close> the evicted key.
\<close>

theorem LRU_eviction:
  assumes "LRUCache_new (int (Suc (length rest))) = Inr c0"
    and "distinct (k' # k1 # map fst rest)"
    and "c1 = lru_run c0 (Put k1 v1 # map (\<lambda>(k, v). Put k v) rest)"
  shows "cache_holds c1 (rev (map fst rest) @ [k1])
    \<and> cache_holds (LRU_put c1 k' v') (k' # rev (map fst rest))
    \<and> \<not> LRU_has (LRU_put c1 k' v') k1
    \<and> snd (LRU_get (LRU_put c1 k' v') k1) = None
    \<and> LRU_size (LRU_put c1 k' v') = Suc (length rest)
    \<and> (rest \<noteq> [] \<longrightarrow>
         cache_holds (LRU_put (fst (LRU_get c1 k1)) k' v') (k' # k1 # rev (map fst (tl rest)))
         \<and> LRU_has (LRU_put (fst (LRU_get c1 k1)) k' v') k1
         \<and> \<not> LRU_has (LRU_put (fst (LRU_get c1 k1)) k' v') (fst (hd rest)))
    \<and> (k \<in> set (map fst rest) \<longrightarrow>
         cache_holds (LRU_put (fst (LRU_get c1 k)) k' v') (k' # k # remove1 k (rev (map fst rest)))
         \<and> \<not> LRU_has (LRU_put (fst (LRU_get c1 k)) k' v') k1)
    \<and> (rest = [] \<longrightarrow>
         cache_holds (LRU_put (fst (LRU_get c1 k1)) k' v') [k']
         \<and> \<not> LRU_has (LRU_put (fst (LRU_get c1 k1)) k' v') k1)"
proof -
  let ?ks = "rev (map fst rest) @ [k1]"
  from lru_rel_new[OF assms(1)] have r0: "lru_rel c0 []"
    and cap0: "capacity c0 = int (Suc (length rest))" by simp_all
  have "lru_rel (lru_run c0 (map (\<lambda>(k, v). Put k v) ((k1, v1) # rest)))
          (rev (map fst ((k1, v1) # rest)) @ [])
      \<and> capacity (lru_run c0 (map (\<lambda>(k, v). Put k v) ((k1, v1) # rest))) = capacity c0"
    using assms(2) cap0 by (intro lru_rel_puts[OF r0]) auto
  then have r1: "lru_rel c1 ?ks" and cap1: "capacity c1 = int (Suc (length rest))"
    by (simp_all add: assms(3) cap0)
  have k': "k' \<notin> set ?ks" using assms(2) by auto
  have k1n: "k1 \<notin> set (map fst rest)" and k1k: "k1 \<noteq> k'" using assms(2) by auto
  have full: "int (length ?ks) + 1 > capacity c1" by (simp add: cap1)
  have A: "cache_holds c1 ?ks"
    by (rule lru_rel_holds[OF r1])
  have "lru_rel (LRU_put c1 k' v') (k' # rev (map fst rest))"
    using lru_rel_put_new[OF r1 k', of v'] full by simp
  then have B: "cache_holds (LRU_put c1 k' v') (k' # rev (map fst rest))"
    by (rule lru_rel_holds)
  from B k1n k1k have B1: "\<not> LRU_has (LRU_put c1 k' v') k1"
    and B2: "snd (LRU_get (LRU_put c1 k' v') k1) = None"
    and B3: "LRU_size (LRU_put c1 k' v') = Suc (length rest)"
    by (simp_all add: cache_holds_def)
  have get: "cache_holds (LRU_put (fst (LRU_get c1 x)) k' v') (k' # butlast (x # remove1 x ?ks))"
    if x: "x \<in> set ?ks" for x
  proof -
    have r2: "lru_rel (fst (LRU_get c1 x)) (x # remove1 x ?ks)"
      by (rule lru_rel_get_hit[OF r1 x])
    have k2: "k' \<notin> set (x # remove1 x ?ks)"
      using k' x by (auto dest: notin_set_remove1)
    have "length (remove1 x ?ks) = length rest"
      using x by (simp add: length_remove1)
    then have full2: "int (length (x # remove1 x ?ks)) + 1 > capacity (fst (LRU_get c1 x))"
      by (simp add: capacity_steps cap1)
    have "lru_rel (LRU_put (fst (LRU_get c1 x)) k' v') (k' # butlast (x # remove1 x ?ks))"
      using lru_rel_put_new[OF r2 k2, of v'] full2 by simp
    then show ?thesis by (rule lru_rel_holds)
  qed
  have rm1: "remove1 k1 ?ks = rev (map fst rest)"
    using k1n by (simp add: remove1_append)
  have C: "cache_holds (LRU_put (fst (LRU_get c1 k1)) k' v') (k' # k1 # rev (map fst (tl rest)))
         \<and> LRU_has (LRU_put (fst (LRU_get c1 k1)) k' v') k1
         \<and> \<not> LRU_has (LRU_put (fst (LRU_get c1 k1)) k' v') (fst (hd rest))"
    if "rest \<noteq> []"
  proof -
    from that have bl: "butlast (rev (map fst rest)) = rev (map fst (tl rest))"
      by (cases rest) simp_all
    with get[of k1] rm1 that
    have h: "cache_holds (LRU_put (fst (LRU_get c1 k1)) k' v') (k' # k1 # rev (map fst (tl rest)))"
      by simp
    from that assms(2) have "fst (hd rest) \<notin> set (k' # k1 # rev (map fst (tl rest)))"
      by (cases rest) auto
    with h show ?thesis by (simp add: cache_holds_def)
  qed
  have D: "cache_holds (LRU_put (fst (LRU_get c1 k)) k' v') (k' # k # remove1 k (rev (map fst rest)))
         \<and> \<not> LRU_has (LRU_put (fst (LRU_get c1 k)) k' v') k1"
    if "k \<in> set (map fst rest)"
  proof -
    from that have "remove1 k ?ks = remove1 k (rev (map fst rest)) @ [k1]"
      by (simp add: remove1_append)
    with get[of k] that
    have h: "cache_holds (LRU_put (fst (LRU_get c1 k)) k' v') (k' # k # remove1 k (rev (map fst rest)))"
      by (simp add: butlast_append)
    from that k1n k1k have "k1 \<notin> set (k' # k # remove1 k (rev (map fst rest)))"
      by (auto dest: notin_set_remove1)
    with h show ?thesis by (simp add: cache_holds_def)
  qed
  have E: "cache_holds (LRU_put (fst (LRU_get c1 k1)) k' v') [k']
         \<and> \<not> LRU_has (LRU_put (fst (LRU_get c1 k1)) k' v') k1"
    if "rest = []"
  proof -
    from get[of k1] that
    have h: "cache_holds (LRU_put (fst (LRU_get c1 k1)) k' v') [k']" by simp
    with k1k show ?thesis by (simp add: cache_holds_def)
  qed
  from A B B1 B2 B3 C D E show ?thesis by blast
qed

theorem LRU_eviction_witness:
  "LRU_keys (lru_run (projr (LRUCache_new 3) :: (nat, string) LRUCache)
       [Put 1 ''a'', Put 2 ''b'', Put 3 ''c'']) = Some [3, 2, 1]
   \<and> LRU_keys (LRU_put (lru_run (projr (LRUCache_new 3) :: (nat, string) LRUCache)
       [Put 1 ''a'', Put 2 ''b'', Put 3 ''c'']) 4 ''d'') = Some [4, 3, 2]
   \<and> \<not> LRU_has (LRU_put (lru_run (projr (LRUCache_new 3) :: (nat, string) LRUCache)
       [Put 1 ''a'', Put 2 ''b'', Put 3 ''c'']) 4 ''d'') 1
   \<and> LRU_has (LRU_put (lru_run (projr (LRUCache_new 3) :: (nat, string) LRUCache)
       [Put 1 ''a'', Put 2 ''b'', Put 3 ''c'']) 4 ''d'') 2
   \<and> snd (LRU_get (LRU_put (lru_run (projr (LRUCache_new 3) :: (nat, string) LRUCache)
       [Put 1 ''a'', Put 2 ''b'', Put 3 ''c'']) 4 ''d'') 1) = None
   \<and> LRU_size (LRU_put (lru_run (projr (LRUCache_new 3) :: (nat, string) LRUCache)
       [Put 1 ''a'', Put 2 ''b'', Put 3 ''c'']) 4 ''d'') = 3
   \<and> LRU_keys (LRU_put (fst (LRU_get (lru_run (projr (LRUCache_new 3) :: (nat, string) LRUCache)
       [Put 1 ''a'', Put 2 ''b'', Put 3 ''c'']) 1)) 4 ''d'') = Some [4, 1, 3]
   \<and> LRU_has (LRU_put (fst (LRU_get (lru_run (projr (LRUCache_new 3) :: (nat, string) LRUCache)
       [Put 1 ''a'', Put 2 ''b'', Put 3 ''c'']) 1)) 4 ''d'') 1
   \<and> \<not> LRU_has (LRU_put (fst (LRU_get (lru_run (projr (LRUCache_new 3) :: (nat, string) LRUCache)
       [Put 1 ''a'', Put 2 ''b'', Put 3 ''c'']) 1)) 4 ''d'') 2
   \<and> LRU_keys (LRU_put (fst (LRU_get (lru_run (projr (LRUCache_new 3) :: (nat, string) LRUCache)
       [Put 1 ''a'', Put 2 ''b'', Put 3 ''c'']) 3)) 4 ''d'') = Some [4, 3, 2]
   \<and> \<not> LRU_has (LRU_put (fst (LRU_get (lru_run (projr (LRUCache_new 3) :: (nat, string) LRUCache)
       [Put 1 ''a'', Put 2 ''b'', Put 3 ''c'']) 3)) 4 ''d'') 1
   \<and> LRU_keys (LRU_put (fst (LRU_get (lru_run (projr (LRUCache_new 1) :: (nat, string) LRUCache)
       [Put 1 ''a'']) 1)) 2 ''b'') = Some [2]
   \<and> \<not> LRU_has (LRU_put (fst (LRU_get (lru_run (projr (LRUCache_new 1) :: (nat, string) LRUCache)
       [Put 1 ''a'']) 1)) 2 ''b'') 1"
proof -
  let ?c0 = "projr (LRUCache_new 3) :: (nat, string) LRUCache"
  let ?d0 = "projr (LRUCache_new 1) :: (nat, string) LRUCache"
  let ?none = "[] :: (nat \<times> string) list"
  let ?rest = "[(2, ''b''), (3, ''c'')] :: (nat \<times> string) list"
  let ?c1 = "lru_run ?c0 [Put 1 ''a'', Put 2 ''b'', Put 3 ''c'']"
  have new: "LRUCache_new (int (Suc (length ?rest))) = Inr ?c0"
    by (simp add: LRUCache_new_def)
  have d: "distinct ((4::nat) # 1 # map fst ?rest)" by simp
  have c1: "?c1 = lru_run ?c0 (Put 1 ''a'' # map (\<lambda>(k, v). Put k v) ?rest)" by simp
  have m: "(3::nat) \<in> set (map fst ?rest)" and n: "?rest \<noteq> []" by simp_all
  note spec = LRU_eviction[OF new d c1, where k = 3 and v' = "''d''"]
  from spec have 1: "LRU_keys ?c1 = Some [3, 2, 1]"
    by (simp add: cache_holds_def)
  from spec have 2: "LRU_keys (LRU_put ?c1 4 ''d'') = Some [4, 3, 2]"
    and 3: "\<not> LRU_has (LRU_put ?c1 4 ''d'') 1"
    and 4: "LRU_has (LRU_put ?c1 4 ''d'') 2"
    and 5: "snd (LRU_get (LRU_put ?c1 4 ''d'') 1) = None"
    and 6: "LRU_size (LRU_put ?c1 4 ''d'') = 3"
    by (simp_all add: cache_holds_def)
  from spec n have 7: "LRU_keys (LRU_put (fst (LRU_get ?c1 1)) 4 ''d'') = Some [4, 1, 3]"
    and 8: "LRU_has (LRU_put (fst (LRU_get ?c1 1)) 4 ''d'') 1"
    and 9: "\<not> LRU_has (LRU_put (fst (LRU_get ?c1 1)) 4 ''d'') 2"
    by (simp_all add: cache_holds_def)
  from spec m have 10: "LRU_keys (LRU_put (fst (LRU_get ?c1 3)) 4 ''d'') = Some [4, 3, 2]"
    and 11: "\<not> LRU_has (LRU_put (fst (LRU_get ?c1 3)) 4 ''d'') 1"
    by (simp_all add: cache_holds_def)
  have new1: "LRUCache_new (int (Suc (length ?none))) = Inr ?d0"
    by (simp add: LRUCache_new_def)
  have d1: "distinct ((2::nat) # 1 # map fst ?none)" by simp
  have c11: "lru_run ?d0 [Put 1 ''a''] = lru_run ?d0 (Put 1 ''a'' # map (\<lambda>(k, v). Put k v) ?none)"
    by simp
  note one = LRU_eviction[OF new1 d1 c11, where v' = "''b''"]
  from one have 12: "LRU_keys (LRU_put (fst (LRU_get (lru_run ?d0 [Put 1 ''a'']) 1)) 2 ''b'') = Some [2]"
    and 13: "\<not> LRU_has (LRU_put (fst (LRU_get (lru_run ?d0 [Put 1 ''a'']) 1)) 2 ''b'') 1"
    by (simp_all add: cache_holds_def)
  from 1 2 3 4 5 6 7 8 9 10 11 12 13 show ?thesis by blast
qed

text \<open>
  The claim as stated fails: with capacity 2 a \<open>get\<close> of the existing key 2 before the
  third put leaves key 1 the evicted one, and with capacity 1 a \<open>get\<close> of the only key
  does not save it.
\<close>

theorem LRU_get_eviction_counterexample:
  "LRU_keys (lru_run (projr (LRUCache_new 2) :: (nat, string) LRUCache)
       [Put 1 ''a'', Put 2 ''b'', Get 2, Put 3 ''c'']) = Some [3, 2]
   \<and> \<not> LRU_has (lru_run (projr (LRUCache_new 2) :: (nat, string) LRUCache)
       [Put 1 ''a'', Put 2 ''b'', Get 2, Put 3 ''c'']) 1
   \<and> LRU_keys (lru_run (projr (LRUCache_new 2) :: (nat, string) LRUCache)
       [Put 1 ''a'', Put 2 ''b'', Put 3 ''c'']) = Some [3, 2]
   \<and> \<not> LRU_has (lru_run (projr (LRUCache_new 2) :: (nat, string) LRUCache)
       [Put 1 ''a'', Put 2 ''b'', Put 3 ''c'']) 1
   \<and> LRU_keys (lru_run (projr (LRUCache_new 1) :: (nat, string) LRUCache)
       [Put 1 ''a'', Get 1, Put 2 ''b'']) = Some [2]
   \<and> \<not> LRU_has (lru_run (projr (LRUCache_new 1) :: (nat, string) LRUCache)
       [Put 1 ''a'', Get 1, Put 2 ''b'']) 1
   \<and> LRU_keys (lru_run (projr (LRUCache_new 1) :: (nat, string) LRUCache)
       [Put 1 ''a'', Put 2 ''b'']) = Some [2]
   \<and> \<not> LRU_has (lru_run (projr (LRUCache_new 1) :: (nat, string) LRUCache)
       [Put 1 ''a'', Put 2 ''b'']) 1"
  by code_simp

text \<open>
  C8. After every sequence of \<open>get\<close>, \<open>put\<close>, \<open>has\<close>, \<open>delete\<close> and \<open>clear\<close> on a newly
  constructed cache, the walk from the head along \<open>next\<close> ends, and the list it visits is
  as long as the backing map is large (which is what \<open>size()\<close> returns); the keys on the
  list are distinct and are the keys of the map.
\<close>

theorem LRU_size_invariant:
  "LRUCache_new cap = Inr c0 \<Longrightarrow>
   \<exists>ks. LRU_keys (lru_run c0 ops) = Some ks
      \<and> length ks = LRU_size (lru_run c0 ops)
      \<and> length ks = length (cache (lru_run c0 ops))
      \<and> distinct ks
      \<and> set ks = set (map fst (cache (lru_run c0 ops)))"
proof -
  assume "LRUCache_new cap = Inr c0"
  then have "lru_rel c0 []" by (simp add: lru_rel_new)
  from lru_rel_run[OF this, of ops] obtain ks where r: "lru_rel (lru_run c0 ops) ks" ..
  from lru_rel_facts[OF r] show ?thesis by (auto simp: LRU_size_def)
qed

theorem LRU_size_invariant_witness:
  "(\<exists>ks. LRU_keys (lru_run (projr (LRUCache_new 2) :: (nat, string) LRUCache)
            [Put 1 ''a'', Put 2 ''b'', Get 1, Put 3 ''c'', Has 2, Delete 1, Put 4 ''d'', Put 3 ''e'']) = Some ks
      \<and> length ks = LRU_size (lru_run (projr (LRUCache_new 2) :: (nat, string) LRUCache)
            [Put 1 ''a'', Put 2 ''b'', Get 1, Put 3 ''c'', Has 2, Delete 1, Put 4 ''d'', Put 3 ''e''])
      \<and> length ks = length (cache (lru_run (projr (LRUCache_new 2) :: (nat, string) LRUCache)
            [Put 1 ''a'', Put 2 ''b'', Get 1, Put 3 ''c'', Has 2, Delete 1, Put 4 ''d'', Put 3 ''e'']))
      \<and> distinct ks
      \<and> set ks = set (map fst (cache (lru_run (projr (LRUCache_new 2) :: (nat, string) LRUCache)
            [Put 1 ''a'', Put 2 ''b'', Get 1, Put 3 ''c'', Has 2, Delete 1, Put 4 ''d'', Put 3 ''e'']))))
   \<and> LRU_keys (lru_run (projr (LRUCache_new 2) :: (nat, string) LRUCache)
            [Put 1 ''a'', Put 2 ''b'', Get 1, Put 3 ''c'', Has 2, Delete 1, Put 4 ''d'', Put 3 ''e'']) = Some [3, 4]"
proof -
  have new: "LRUCache_new 2 = Inr (projr (LRUCache_new 2) :: (nat, string) LRUCache)"
    by (simp add: LRUCache_new_def)
  have ev: "LRU_keys (lru_run (projr (LRUCache_new 2) :: (nat, string) LRUCache)
            [Put 1 ''a'', Put 2 ''b'', Get 1, Put 3 ''c'', Has 2, Delete 1, Put 4 ''d'', Put 3 ''e'']) = Some [3, 4]"
    by code_simp
  show ?thesis
    by (rule conjI, rule LRU_size_invariant[OF new], rule ev)
qed

text \<open>
  C9. The constructor fails at once, with the error \<open>Capacity must be greater than 0\<close>, on
  a capacity that is not positive, and returns no cache then; on every positive capacity
  it returns an empty cache of that capacity.
\<close>

theorem LRUCache_new_capacity:
  "(cap \<le> 0 \<longrightarrow>
      (LRUCache_new cap :: error + ('k, 'v) LRUCache) = Inl (Error ''Capacity must be greater than 0''))
   \<and> (0 < cap \<longrightarrow>
      (\<exists>c :: ('k, 'v) LRUCache. LRUCache_new cap = Inr c \<and> capacity c = cap \<and> LRU_size c = 0
          \<and> LRU_keys c = Some [] \<and> hits c = 0 \<and> misses c = 0))"
  by (simp add: LRUCache_new_def LRU_size_def LRU_keys_def keys_loop.simps)

theorem LRUCache_new_capacity_witness:
  "(LRUCache_new 0 :: error + (nat, string) LRUCache) = Inl (Error ''Capacity must be greater than 0'')
   \<and> (LRUCache_new (- 1) :: error + (nat, string) LRUCache) = Inl (Error ''Capacity must be greater than 0'')
   \<and> (\<exists>c :: (nat, string) LRUCache. LRUCache_new 1 = Inr c \<and> capacity c = 1 \<and> LRU_size c = 0
          \<and> LRU_keys c = Some [] \<and> hits c = 0 \<and> misses c = 0)"
proof -
  have a: "(0::int) \<le> 0" and b: "(- 1::int) \<le> 0" and c: "(0::int) < 1" by simp_all
  from LRUCache_new_capacity[of 0, where ?'k = nat and ?'v = string] a
  have 1: "(LRUCache_new 0 :: error + (nat, string) LRUCache) = Inl (Error ''Capacity must be greater than 0'')"
    by blast
  from LRUCache_new_capacity[of "- 1", where ?'k = nat and ?'v = string] b
  have 2: "(LRUCache_new (- 1) :: error + (nat, string) LRUCache) = Inl (Error ''Capacity must be greater than 0'')"
    by blast
  from LRUCache_new_capacity[of 1, where ?'k = nat and ?'v = string] c
  have 3: "\<exists>c :: (nat, string) LRUCache. LRUCache_new 1 = Inr c \<and> capacity c = 1 \<and> LRU_size c = 0
          \<and> LRU_keys c = Some [] \<and> hits c = 0 \<and> misses c = 0"
    by blast
  from 1 2 3 show ?thesis by blast
qed

section \<open>The claims about citations, search and responses\<close>

text \<open>
  C1, as the code has it. For every ledger built by ingestion and every answer text, a
  citation extracted from the text is kept in the validated list exactly when, split at
  its colons, it is a case id alone that the ledger holds, or a case id and an item id
  such that the ledger holds the case and the item id is the id of one of its artifacts
  or findings. Every other citation is dropped, a citation of three parts too;
  \<open>validateCitation\<close> returns a boolean on every string and raises nothing.
\<close>

theorem validated_citations:
  "c \<in> set (validatedCitations (ingestCases new_CaseStudyIngestionService cs) answerText) \<longleftrightarrow>
     c \<in> set (extractCitations answerText) \<and>
     (case split_on CHR '':'' c of
        [cid] \<Rightarrow> cid \<in> set (getAllCaseIds (ingestCases new_CaseStudyIngestionService cs))
      | [cid, item] \<Rightarrow>
          (case getCaseById (ingestCases new_CaseStudyIngestionService cs) cid of
             None \<Rightarrow> False
           | Some cse \<Rightarrow> item \<in> artifact_id ` set (artifacts cse) \<or> item \<in> finding_id ` set (findings cse))
      | _ \<Rightarrow> False)"
  using validateCitation_ledger[OF ledger_ok_ingestCases[OF ledger_ok_new], of cs c]
  by (simp add: validatedCitations_def)

theorem validated_citations_witness:
  "''phishing-campaign:phishing-campaign_artifact_1''
     \<in> set (validatedCitations (ingestCases new_CaseStudyIngestionService [example_case])
              ''See [phishing-campaign:phishing-campaign_artifact_1], [not-a-case:x] and [phishing-campaign].'')
   \<and> ''phishing-campaign''
     \<in> set (validatedCitations (ingestCases new_CaseStudyIngestionService [example_case])
              ''See [phishing-campaign:phishing-campaign_artifact_1], [not-a-case:x] and [phishing-campaign].'')
   \<and> ''not-a-case:x''
     \<notin> set (validatedCitations (ingestCases new_CaseStudyIngestionService [example_case])
              ''See [phishing-campaign:phishing-campaign_artifact_1], [not-a-case:x] and [phishing-campaign].'')"
proof -
  let ?s = "ingestCases new_CaseStudyIngestionService [example_case]"
  let ?a = "''See [phishing-campaign:phishing-campaign_artifact_1], [not-a-case:x] and [phishing-campaign].''"
  have e: "extractCitations ?a
      = [''phishing-campaign:phishing-campaign_artifact_1'', ''not-a-case:x'', ''phishing-campaign'']"
    by code_simp
  have ids: "getAllCaseIds ?s = [''phishing-campaign'']" by code_simp
  have g1: "getCaseById ?s ''phishing-campaign'' = Some example_case" by code_simp
  have g2: "getCaseById ?s ''not-a-case'' = None" by code_simp
  have s1: "split_on CHR '':'' ''phishing-campaign:phishing-campaign_artifact_1''
      = [''phishing-campaign'', ''phishing-campaign_artifact_1'']" by code_simp
  have s2: "split_on CHR '':'' ''phishing-campaign'' = [''phishing-campaign'']" by code_simp
  have s3: "split_on CHR '':'' ''not-a-case:x'' = [''not-a-case'', ''x'']" by code_simp
  have a: "artifact_id ` set (artifacts example_case) = {''phishing-campaign_artifact_1''}"
    by (simp add: example_case_def)
  show ?thesis
    using validated_citations[of "''phishing-campaign:phishing-campaign_artifact_1''" "[example_case]" ?a]
      validated_citations[of "''phishing-campaign''" "[example_case]" ?a]
      validated_citations[of "''not-a-case:x''" "[example_case]" ?a]
    by (simp add: e ids g1 g2 s1 s2 s3 a)
qed

text \<open>
  The claim as stated fails on a citation of three parts: its case is in the ledger and
  its item id is the id of an artifact of that case, and yet it is dropped.
\<close>

theorem three_part_citation_counterexample:
  "extractCitations ''[phishing-campaign:phishing-campaign_artifact_1:header]''
      = [''phishing-campaign:phishing-campaign_artifact_1:header'']
   \<and> split_on CHR '':'' ''phishing-campaign:phishing-campaign_artifact_1:header''
      = [''phishing-campaign'', ''phishing-campaign_artifact_1'', ''header'']
   \<and> map_option (\<lambda>c. map artifact_id (artifacts c)) (getCaseById example_ledger ''phishing-campaign'')
      = Some [''phishing-campaign_artifact_1'']
   \<and> validatedCitations example_ledger ''[phishing-campaign:phishing-campaign_artifact_1:header]'' = []"
  by code_simp

text \<open>
  C2 says that a query with the case id of an ingested case among its tokens finds that
  case, with a positive score. \<open>ingestCase\<close> puts the lower-cased case id into the
  keyword set of the indexed case and into the case trie, and the rule table marks
  \<open>case_id\<close> as indexed; but only the declared keywords of the case are posted in the
  keyword index, which is all that \<open>search\<close> reads. On the example ledger the query
  \<open>What tools were used in phishing-campaign?\<close>, a follow-up that \<open>generateFollowUps\<close>
  suggests for this case, has the case id among its tokens; the id is in the keyword set
  of the indexed case and in the case trie; and the search returns nothing, where a
  query with the keyword \<open>phishing\<close> finds the case with the score 0.5.
\<close>

theorem search_misses_case_id:
  "getAllCaseIds example_ledger = [''phishing-campaign'']
   \<and> ''phishing-campaign'' \<in> set (tokenize ''What tools were used in phishing-campaign?'')
   \<and> map_option (\<lambda>ic. ''phishing-campaign'' \<in> set (ic_keywords ic))
         (map_of (indexedCases example_ledger) ''phishing-campaign'') = Some True
   \<and> Trie_search (caseTrie example_ledger) ''phishing-campaign''
   \<and> search example_ledger ''What tools were used in phishing-campaign?'' 5 = Inr []
   \<and> map_sum id (map (\<lambda>r. (sr_case_id r, relevance_score r))) (search example_ledger ''phishing'' 5)
       = Inr [(''phishing-campaign'', 1 / 2)]"
  by code_simp

text \<open>
  C3 says that every citation of a response, and the response itself, has a confidence
  between 0 and 1. On the example ledger the query \<open>explain phishing campaign hospital\<close>
  matches three keywords of weight 0.5 each and the answer carries no citation of its
  own: the response has the confidence 1.5, and so has its one citation.
\<close>

theorem confidence_above_one:
  "map_sum id (\<lambda>r. (map confidence (citations r), resp_confidence r))
     (processQuery example_service ''explain phishing campaign hospital'') = Inr ([3 / 2], 3 / 2)
   \<and> \<not> (3 / 2 :: rat) \<le> 1"
  by code_simp

text \<open>
  C4, as the code has it. Every response that \<open>processQuery\<close> returns has exactly three
  follow-up suggestions. A query outside the scope always gets a response, with three
  fixed suggestions; so does a query in scope that matches no case, and its follow-ups
  are three other fixed suggestions, whatever the known case ids are. It is the answer
  text of that response that lists the known case ids: it is the template with the
  bulleted ids in the place of the placeholder, and it contains every known case id that
  has no dollar sign in it.
\<close>

theorem processQuery_follow_ups:
  "(processQuery svc q = Inr r \<longrightarrow> length (follow_up_suggestions r) = 3)
   \<and> (\<not> isForensicQuery q \<longrightarrow>
        (\<exists>r'. processQuery svc q = Inr r' \<and> citations r' = []
           \<and> follow_up_suggestions r' =
               [''Show me a case study'', ''Explain memory forensics'', ''How to investigate ransomware?'']))
   \<and> (isForensicQuery q \<longrightarrow> search (ingestionService svc) q 3 = Inr [] \<longrightarrow>
        (\<exists>r'. processQuery svc q = Inr r' \<and> citations r' = []
           \<and> follow_up_suggestions r' =
               [''Tell me about ransomware-investigation'',
                ''What artifacts are in insider-data-theft case?'',
                ''List all case studies'']
           \<and> answer r' = js_replace INSUFFICIENT_CONTEXT ''{{available_cases}}''
                (js_join nl (map (\<lambda>i. bullet @ '' '' @ i) (getAllCaseIds (ingestionService svc))))
           \<and> (\<forall>i \<in> set (getAllCaseIds (ingestionService svc)).
                 CHR ''$'' \<notin> set i \<longrightarrow> str_includes (answer r') i)))"
proof (intro conjI impI)
  assume "processQuery svc q = Inr r"
  then show "length (follow_up_suggestions r) = 3" by (rule processQuery_follow_ups_length)
next
  assume "\<not> isForensicQuery q"
  then show "\<exists>r'. processQuery svc q = Inr r' \<and> citations r' = []
           \<and> follow_up_suggestions r' =
               [''Show me a case study'', ''Explain memory forensics'', ''How to investigate ransomware?'']"
    by (simp add: processQuery_refusal)
next
  assume "isForensicQuery q" and "search (ingestionService svc) q 3 = Inr []"
  then show "\<exists>r'. processQuery svc q = Inr r' \<and> citations r' = []
           \<and> follow_up_suggestions r' =
               [''Tell me about ransomware-investigation'',
                ''What artifacts are in insider-data-theft case?'',
                ''List all case studies'']
           \<and> answer r' = js_replace INSUFFICIENT_CONTEXT ''{{available_cases}}''
                (js_join nl (map (\<lambda>i. bullet @ '' '' @ i) (getAllCaseIds (ingestionService svc))))
           \<and> (\<forall>i \<in> set (getAllCaseIds (ingestionService svc)).
                 CHR ''$'' \<notin> set i \<longrightarrow> str_includes (answer r') i)"
    using zero_match_answer_lists_id[of _ "getAllCaseIds (ingestionService svc)"]
    by (simp add: processQuery_zero_match)
qed

theorem processQuery_follow_ups_witness:
  "length (follow_up_suggestions (projr (processQuery example_service ''explain phishing campaign hospital''))) = 3
   \<and> \<not> isForensicQuery ''what is the weather''
   \<and> (\<exists>r'. processQuery example_service ''what is the weather'' = Inr r' \<and> citations r' = []
           \<and> follow_up_suggestions r' =
               [''Show me a case study'', ''Explain memory forensics'', ''How to investigate ransomware?''])
   \<and> isForensicQuery ''forensic timeline''
   \<and> search (ingestionService two_case_service) ''forensic timeline'' 3 = Inr []
   \<and> getAllCaseIds (ingestionService two_case_service) = [''a$&b'', ''phishing-campaign'']
   \<and> (\<exists>r'. processQuery two_case_service ''forensic timeline'' = Inr r' \<and> citations r' = []
           \<and> follow_up_suggestions r' =
               [''Tell me about ransomware-investigation'',
                ''What artifacts are in insider-data-theft case?'',
                ''List all case studies'']
           \<and> str_includes (answer r') ''phishing-campaign'')"
proof -
  let ?q1 = "''explain phishing campaign hospital''"
  have ret: "processQuery example_service ?q1 = Inr (projr (processQuery example_service ?q1))"
    by code_simp
  have nf: "\<not> isForensicQuery ''what is the weather''" by code_simp
  have f: "isForensicQuery ''forensic timeline''" by code_simp
  have z: "search (ingestionService two_case_service) ''forensic timeline'' 3 = Inr []" by code_simp
  have ids: "getAllCaseIds (ingestionService two_case_service) = [''a$&b'', ''phishing-campaign'']"
    by code_simp
  have d: "CHR ''$'' \<notin> set ''phishing-campaign''" by simp
  note a = processQuery_follow_ups[of example_service ?q1 "projr (processQuery example_service ?q1)"]
  note b = processQuery_follow_ups[of example_service "''what is the weather''"]
  note c = processQuery_follow_ups[of two_case_service "''forensic timeline''"]
  from a ret have 1: "length (follow_up_suggestions (projr (processQuery example_service ?q1))) = 3"
    by blast
  from b nf have 2: "\<exists>r'. processQuery example_service ''what is the weather'' = Inr r' \<and> citations r' = []
           \<and> follow_up_suggestions r' =
               [''Show me a case study'', ''Explain memory forensics'', ''How to investigate ransomware?'']"
    by blast
  from c f z obtain r' where r: "processQuery two_case_service ''forensic timeline'' = Inr r'"
    "citations r' = []"
    "follow_up_suggestions r' =
               [''Tell me about ransomware-investigation'',
                ''What artifacts are in insider-data-theft case?'',
                ''List all case studies'']"
    "\<forall>i \<in> set (getAllCaseIds (ingestionService two_case_service)).
       CHR ''$'' \<notin> set i \<longrightarrow> str_includes (answer r') i"
    by blast
  from r(4) d have "str_includes (answer r') ''phishing-campaign''" by (simp add: ids)
  with r 1 2 nf f z ids show ?thesis by blast
qed

text \<open>
  The claim as stated fails: with the one case \<open>phishing-campaign\<close> known, the follow-ups
  of a query without match do not mention it.
\<close>

theorem follow_ups_fixed_counterexample:
  "isForensicQuery ''forensic timeline''
   \<and> search (ingestionService example_service) ''forensic timeline'' 3 = Inr []
   \<and> getAllCaseIds (ingestionService example_service) = [''phishing-campaign'']
   \<and> map_sum id follow_up_suggestions (processQuery example_service ''forensic timeline'')
       = Inr [''Tell me about ransomware-investigation'',
              ''What artifacts are in insider-data-theft case?'',
              ''List all case studies'']
   \<and> \<not> list_ex (\<lambda>s. str_includes s ''phishing-campaign'')
         [''Tell me about ransomware-investigation'',
          ''What artifacts are in insider-data-theft case?'',
          ''List all case studies'']"
  by code_simp

end
